theory Spec2Isabelle
  imports Main
begin

section \<open>Python values\<close>

text \<open>
  The client of \<^verbatim>\<open>nsmemcache.py\<close> is dynamically typed: what the cache primitives return is
  tested for truth (\<^verbatim>\<open>if not(self.add(ns_key, id))\<close>) and formatted with \<^verbatim>\<open>%s\<close>.  The values
  that occur are \<^verbatim>\<open>None\<close>, booleans, integers and strings.
\<close>

datatype pyval = PNone | PBool bool | PInt int | PStr string

text \<open>Python's truth test, as \<^verbatim>\<open>not(...)\<close> applies it.\<close>

fun truthy :: "pyval \<Rightarrow> bool" where
  "truthy PNone = False"
| "truthy (PBool b) = b"
| "truthy (PInt n) = (n \<noteq> 0)"
| "truthy (PStr s) = (s \<noteq> [])"

text \<open>Decimal digits: \<open>digit_char d\<close> is the character of the digit \<open>d < 10\<close>.\<close>

definition digit_char :: "nat \<Rightarrow> char" where
  "digit_char d = ''0123456789'' ! d"

definition digit_val :: "char \<Rightarrow> nat" where
  "digit_val c = of_char c - 48"

definition is_digit :: "char \<Rightarrow> bool" where
  "is_digit c = (48 \<le> (of_char c :: nat) \<and> (of_char c :: nat) \<le> 57)"

fun str_nat :: "nat \<Rightarrow> string" where
  "str_nat n = (if n < 10 then [digit_char n] else str_nat (n div 10) @ [digit_char (n mod 10)])"

declare str_nat.simps [simp del]

definition str_int :: "int \<Rightarrow> string" where
  "str_int i = (if i < 0 then CHR ''-'' # str_nat (nat (- i)) else str_nat (nat i))"

text \<open>\<^verbatim>\<open>'%s' % v\<close>: Python's \<^verbatim>\<open>str\<close> of a value.\<close>

fun py_str :: "pyval \<Rightarrow> string" where
  "py_str PNone = ''None''"
| "py_str (PBool b) = (if b then ''True'' else ''False'')"
| "py_str (PInt i) = str_int i"
| "py_str (PStr s) = s"

definition parse_nat :: "string \<Rightarrow> nat" where
  "parse_nat s = foldl (\<lambda>acc c. 10 * acc + digit_val c) 0 s"

section \<open>The underlying cache client\<close>

text \<open>
  \<^verbatim>\<open>class Client(memcache.Client)\<close> inherits the primitives \<^verbatim>\<open>get\<close>, \<^verbatim>\<open>set\<close>, \<^verbatim>\<open>add\<close>,
  \<^verbatim>\<open>incr\<close>, \<^verbatim>\<open>decr\<close> and \<^verbatim>\<open>delete\<close> from the \<^verbatim>\<open>memcache\<close> library, which is not part of
  the repository.  The namespace layer is therefore written over an arbitrary implementation
  of these six primitives: a record of functions on a cache state \<open>'s\<close>, each returning the
  Python value of the call and the state after it.  The arguments are the ones the library
  takes: \<^verbatim>\<open>set(key, val, time, min_compress_len)\<close>, \<^verbatim>\<open>add(key, val, time, min_compress_len)\<close>,
  \<^verbatim>\<open>incr(key, delta)\<close>, \<^verbatim>\<open>decr(key, delta)\<close>, \<^verbatim>\<open>get(key)\<close>, \<^verbatim>\<open>delete(key)\<close>.
\<close>

record 's memcache =
  mc_get :: "string \<Rightarrow> 's \<Rightarrow> pyval \<times> 's"
  mc_set :: "string \<Rightarrow> pyval \<Rightarrow> int \<Rightarrow> int \<Rightarrow> 's \<Rightarrow> pyval \<times> 's"
  mc_add :: "string \<Rightarrow> pyval \<Rightarrow> int \<Rightarrow> int \<Rightarrow> 's \<Rightarrow> pyval \<times> 's"
  mc_incr :: "string \<Rightarrow> int \<Rightarrow> 's \<Rightarrow> pyval \<times> 's"
  mc_decr :: "string \<Rightarrow> int \<Rightarrow> 's \<Rightarrow> pyval \<times> 's"
  mc_delete :: "string \<Rightarrow> 's \<Rightarrow> pyval \<times> 's"

section \<open>The namespace layer (\<^verbatim>\<open>nsmemcache.Client\<close>)\<close>

text \<open>
  \<^verbatim>\<open>_get_key(self, ns, key)\<close>.  The calls \<^verbatim>\<open>self.add(ns_key, id)\<close> and
  \<^verbatim>\<open>self.set(ns_key, 1)\<close> leave \<^verbatim>\<open>time\<close> and \<^verbatim>\<open>min_compress_len\<close> at the library's default
  \<open>0\<close>, and \<^verbatim>\<open>self.incr(ns_key)\<close> leaves \<^verbatim>\<open>delta\<close> at its default \<open>1\<close>.  (An Isabelle name
  cannot start with an underscore, hence \<open>get_key\<close>.)
\<close>

definition get_key :: "'s memcache \<Rightarrow> string \<Rightarrow> string \<Rightarrow> 's \<Rightarrow> string \<times> 's" where
  "get_key self ns key s =
     (let ns_key = ''__ns_'' @ ns;
          id0 = PStr ''1'';
          (r, s1) = mc_add self ns_key id0 0 0 s;
          (id1, s2) = (if \<not> truthy r then mc_get self ns_key s1 else (id0, s1))
      in (''__'' @ ns @ ''_'' @ py_str id1 @ ''_'' @ key, s2))"

text \<open>\<^verbatim>\<open>ns_flush(self, ns)\<close> has no \<^verbatim>\<open>return\<close>: the model returns the state alone.\<close>

definition ns_flush :: "'s memcache \<Rightarrow> string \<Rightarrow> 's \<Rightarrow> 's" where
  "ns_flush self ns s =
     (let ns_key = ''__ns_'' @ ns;
          (r, s1) = mc_incr self ns_key 1 s
      in if \<not> truthy r then snd (mc_set self ns_key (PInt 1) 0 0 s1) else s1)"

definition ns_add :: "'s memcache \<Rightarrow> string \<Rightarrow> string \<Rightarrow> pyval \<Rightarrow> int \<Rightarrow> int \<Rightarrow> 's \<Rightarrow> pyval \<times> 's" where
  "ns_add self ns key val time min_compress s =
     (let (nk, s1) = get_key self ns key s
      in mc_add self nk val time min_compress s1)"

definition ns_set :: "'s memcache \<Rightarrow> string \<Rightarrow> string \<Rightarrow> pyval \<Rightarrow> int \<Rightarrow> int \<Rightarrow> 's \<Rightarrow> pyval \<times> 's" where
  "ns_set self ns key val time min_compress s =
     (let (nk, s1) = get_key self ns key s
      in mc_set self nk val time min_compress s1)"

definition ns_get :: "'s memcache \<Rightarrow> string \<Rightarrow> string \<Rightarrow> 's \<Rightarrow> pyval \<times> 's" where
  "ns_get self ns key s =
     (let (nk, s1) = get_key self ns key s
      in mc_get self nk s1)"

definition ns_incr :: "'s memcache \<Rightarrow> string \<Rightarrow> string \<Rightarrow> int \<Rightarrow> 's \<Rightarrow> pyval \<times> 's" where
  "ns_incr self ns key amount s =
     (let (nk, s1) = get_key self ns key s
      in mc_incr self nk amount s1)"

definition ns_decr :: "'s memcache \<Rightarrow> string \<Rightarrow> string \<Rightarrow> int \<Rightarrow> 's \<Rightarrow> pyval \<times> 's" where
  "ns_decr self ns key amount s =
     (let (nk, s1) = get_key self ns key s
      in mc_decr self nk amount s1)"

definition ns_delete :: "'s memcache \<Rightarrow> string \<Rightarrow> string \<Rightarrow> 's \<Rightarrow> pyval \<times> 's" where
  "ns_delete self ns key s =
     (let (nk, s1) = get_key self ns key s
      in mc_delete self nk s1)"

section \<open>An ideal cache\<close>

text \<open>
  Modelled from the spec: the library class \<^verbatim>\<open>memcache.Client\<close> and the server behind it are
  not in the repository.  The spec (sections 1, 4.1 and 6) describes them as one flat store of
  entries addressed by opaque string keys, with the primitives \<^verbatim>\<open>get\<close>, \<^verbatim>\<open>set\<close>, \<^verbatim>\<open>add\<close>,
  \<^verbatim>\<open>incr\<close>, \<^verbatim>\<open>decr\<close>, \<^verbatim>\<open>delete\<close>, each atomic.  The ideal cache is that store with nothing
  else happening to it: no eviction, no expiry, no transport failure, one caller at a time.
  A value is stored as it is given and read back unchanged; \<^verbatim>\<open>time\<close> and
  \<^verbatim>\<open>min_compress_len\<close> do not change what is stored.
\<close>

type_synonym cache = "string \<Rightarrow> pyval option"

text \<open>
  Modelled from the spec: "version counters ... are treated as decimal integers by the
  underlying cache's own incr/decr semantics".  A stored value is a counter when it is a
  non-negative integer or a non-empty string of decimal digits; \<open>numeric\<close> reads it.
\<close>

fun numeric :: "pyval \<Rightarrow> nat option" where
  "numeric (PInt i) = (if 0 \<le> i then Some (nat i) else None)"
| "numeric (PStr s) = (if s \<noteq> [] \<and> list_all is_digit s then Some (parse_nat s) else None)"
| "numeric PNone = None"
| "numeric (PBool b) = None"

text \<open>
  Modelled from the spec: the counter written back by \<^verbatim>\<open>incr\<close>/\<^verbatim>\<open>decr\<close> keeps the kind of
  the value it replaces (an integer stays an integer, a digit string stays a digit string).
\<close>

fun with_count :: "pyval \<Rightarrow> nat \<Rightarrow> pyval" where
  "with_count (PInt i) m = PInt (int m)"
| "with_count v m = PStr (str_nat m)"

text \<open>Modelled from the spec: \<^verbatim>\<open>get(key) -> (value, found)\<close>; not found is \<^verbatim>\<open>None\<close>.\<close>

definition cache_get :: "string \<Rightarrow> cache \<Rightarrow> pyval \<times> cache" where
  "cache_get key s = (case s key of None \<Rightarrow> PNone | Some v \<Rightarrow> v, s)"

text \<open>Modelled from the spec: \<^verbatim>\<open>set(key, value, ttl, compressThreshold) -> success\<close>.\<close>

definition cache_set :: "string \<Rightarrow> pyval \<Rightarrow> int \<Rightarrow> int \<Rightarrow> cache \<Rightarrow> pyval \<times> cache" where
  "cache_set key val time min_compress_len s = (PBool True, s(key \<mapsto> val))"

text \<open>
  Modelled from the spec: \<^verbatim>\<open>add(key, value, ttl, compressThreshold) -> success\<close>, "add
  succeeds only if the key does not already exist".
\<close>

definition cache_add :: "string \<Rightarrow> pyval \<Rightarrow> int \<Rightarrow> int \<Rightarrow> cache \<Rightarrow> pyval \<times> cache" where
  "cache_add key val time min_compress_len s =
     (if s key = None then (PBool True, s(key \<mapsto> val)) else (PBool False, s))"

text \<open>
  Modelled from the spec: \<^verbatim>\<open>incr(key, amount) -> newValue | failure\<close>, "new numeric value or
  failure if the stored value is not numeric or the key does not exist".  Failure is the
  falsy \<^verbatim>\<open>None\<close> and leaves the store as it was.  The spec gives the counter no upper bound
  and says nothing of a negative amount: the counter is unbounded here and a negative amount
  fails.
\<close>

definition cache_incr :: "string \<Rightarrow> int \<Rightarrow> cache \<Rightarrow> pyval \<times> cache" where
  "cache_incr key delta s =
     (case s key of
        None \<Rightarrow> (PNone, s)
      | Some v \<Rightarrow>
          (case numeric v of
             None \<Rightarrow> (PNone, s)
           | Some n \<Rightarrow>
               if delta < 0 then (PNone, s)
               else (PInt (int n + delta), s(key \<mapsto> with_count v (n + nat delta)))))"

text \<open>
  Modelled from the spec: \<^verbatim>\<open>decr(key, amount) -> newValue | failure\<close>, as \<^verbatim>\<open>incr\<close>.  The
  spec does not say what happens below zero: the counter stops at \<open>0\<close> here.
\<close>

definition cache_decr :: "string \<Rightarrow> int \<Rightarrow> cache \<Rightarrow> pyval \<times> cache" where
  "cache_decr key delta s =
     (case s key of
        None \<Rightarrow> (PNone, s)
      | Some v \<Rightarrow>
          (case numeric v of
             None \<Rightarrow> (PNone, s)
           | Some n \<Rightarrow>
               if delta < 0 then (PNone, s)
               else (let m = (if n \<le> nat delta then 0 else n - nat delta)
                     in (PInt (int m), s(key \<mapsto> with_count v m)))))"

text \<open>
  Modelled from the spec: \<^verbatim>\<open>delete(key) -> success\<close> ("boolean/count"): \<open>1\<close> when an entry
  was removed, \<open>0\<close> when there was none.
\<close>

definition cache_delete :: "string \<Rightarrow> cache \<Rightarrow> pyval \<times> cache" where
  "cache_delete key s = (PInt (if s key = None then 0 else 1), s(key := None))"

text \<open>Modelled from the spec: the six primitives of the ideal cache as one client.\<close>

definition ideal :: "cache memcache" where
  "ideal =
     \<lparr> mc_get = cache_get, mc_set = cache_set, mc_add = cache_add,
       mc_incr = cache_incr, mc_decr = cache_decr, mc_delete = cache_delete \<rparr>"

text \<open>
  Modelled from the spec: "Transport/backend failure (connection refused, timeout): surfaced
  verbatim from the underlying cache client as a failure/false/not-found result".  The
  unreachable cache fails every call and stores nothing.
\<close>

definition unreachable :: "unit memcache" where
  "unreachable =
     \<lparr> mc_get = (\<lambda>key s. (PNone, s)),
       mc_set = (\<lambda>key val time min_compress_len s. (PBool False, s)),
       mc_add = (\<lambda>key val time min_compress_len s. (PBool False, s)),
       mc_incr = (\<lambda>key delta s. (PNone, s)),
       mc_decr = (\<lambda>key delta s. (PNone, s)),
       mc_delete = (\<lambda>key s. (PBool False, s)) \<rparr>"

section \<open>The vocabulary of the specification\<close>

text \<open>
  The control key of a namespace and the effective key of an entry, as the spec's data model
  and glossary name them: \<^verbatim>\<open>__ns_<namespace>\<close> and \<^verbatim>\<open>__<namespace>_<version>_<logical-key>\<close>.
\<close>

definition control_key :: "string \<Rightarrow> string" where
  "control_key namespace = ''__ns_'' @ namespace"

definition effective_key :: "string \<Rightarrow> string \<Rightarrow> string \<Rightarrow> string" where
  "effective_key namespace version logicalKey =
     ''__'' @ namespace @ ''_'' @ version @ ''_'' @ logicalKey"

text \<open>
  The operation \<^verbatim>\<open>resolveKey\<close> of the spec (section 4.1), written from its five steps:
  compute the control key; attempt the add of \<^verbatim>\<open>"1"\<close>; on success the version is \<open>1\<close>; on
  failure the version is what \<^verbatim>\<open>get\<close> returns, used as a string; return the effective key.
\<close>

definition resolveKey :: "'s memcache \<Rightarrow> string \<Rightarrow> string \<Rightarrow> 's \<Rightarrow> string \<times> 's" where
  "resolveKey cache namespace logicalKey s =
     (let controlKey = control_key namespace;
          added = mc_add cache controlKey (PStr ''1'') 0 0 s
      in if truthy (fst added)
         then (effective_key namespace ''1'' logicalKey, snd added)
         else (let got = mc_get cache controlKey (snd added)
               in (effective_key namespace (py_str (fst got)) logicalKey, snd got)))"

text \<open>
  The namespaced operations of the spec: "resolve the effective key via resolveKey, then
  delegate verbatim to the underlying cache's corresponding primitive".
\<close>

definition namespaced ::
  "'s memcache \<Rightarrow> (string \<Rightarrow> 's \<Rightarrow> pyval \<times> 's) \<Rightarrow> string \<Rightarrow> string \<Rightarrow> 's \<Rightarrow> pyval \<times> 's" where
  "namespaced cache primitive namespace logicalKey s =
     primitive (fst (resolveKey cache namespace logicalKey s))
       (snd (resolveKey cache namespace logicalKey s))"

text \<open>
  The version counter of a namespace in an ideal cache: the number stored under its control
  key, if there is one.
\<close>

definition counter :: "cache \<Rightarrow> string \<Rightarrow> nat option" where
  "counter s namespace = (case s (control_key namespace) of None \<Rightarrow> None | Some v \<Rightarrow> numeric v)"

section \<open>Sequences of public calls\<close>

text \<open>
  The public surface of the class, one constructor for each method, and the cache state a
  call leaves behind; \<open>run\<close> performs a sequence of calls from left to right.
\<close>

datatype call =
    Ns_get string string
  | Ns_set string string pyval int int
  | Ns_add string string pyval int int
  | Ns_incr string string int
  | Ns_decr string string int
  | Ns_delete string string
  | Ns_flush string

fun exec :: "'s memcache \<Rightarrow> call \<Rightarrow> 's \<Rightarrow> 's" where
  "exec self (Ns_get ns key) s = snd (ns_get self ns key s)"
| "exec self (Ns_set ns key val time min_compress) s = snd (ns_set self ns key val time min_compress s)"
| "exec self (Ns_add ns key val time min_compress) s = snd (ns_add self ns key val time min_compress s)"
| "exec self (Ns_incr ns key amount) s = snd (ns_incr self ns key amount s)"
| "exec self (Ns_decr ns key amount) s = snd (ns_decr self ns key amount s)"
| "exec self (Ns_delete ns key) s = snd (ns_delete self ns key s)"
| "exec self (Ns_flush ns) s = ns_flush self ns s"

fun run :: "'s memcache \<Rightarrow> call list \<Rightarrow> 's \<Rightarrow> 's" where
  "run self [] s = s"
| "run self (c # cs) s = run self cs (exec self c s)"

definition flushes :: "string \<Rightarrow> call list \<Rightarrow> nat" where
  "flushes ns cs = length (filter (\<lambda>c. c = Ns_flush ns) cs)"

text \<open>
  A call that sets, decrements or deletes the entry under the key \<open>target\<close>: an
  \<^verbatim>\<open>ns_set\<close>, an \<^verbatim>\<open>ns_decr\<close> by a positive amount or an \<^verbatim>\<open>ns_delete\<close> whose namespace and
  logical key resolve to \<open>target\<close> in the state in which it is called.  A sequence of calls spoils \<open>target\<close> when
  one of its calls does so, in the state the earlier calls have left.
\<close>

fun clobbers :: "string \<Rightarrow> call \<Rightarrow> cache \<Rightarrow> bool" where
  "clobbers target (Ns_set ns key val time min_compress) s = (fst (get_key ideal ns key s) = target)"
| "clobbers target (Ns_decr ns key amount) s = (0 < amount \<and> fst (get_key ideal ns key s) = target)"
| "clobbers target (Ns_delete ns key) s = (fst (get_key ideal ns key s) = target)"
| "clobbers target (Ns_get ns key) s = False"
| "clobbers target (Ns_add ns key val time min_compress) s = False"
| "clobbers target (Ns_incr ns key amount) s = False"
| "clobbers target (Ns_flush ns) s = False"

fun spoiled :: "string \<Rightarrow> call list \<Rightarrow> cache \<Rightarrow> bool" where
  "spoiled target [] s = False"
| "spoiled target (c # cs) s = (clobbers target c s \<or> spoiled target cs (exec ideal c s))"

text \<open>
  A cache reached from the empty one by two public calls, used as an example below: an
  entry written in the namespace \<^verbatim>\<open>a_2\<close>, then a first look-up in the namespace \<^verbatim>\<open>a\<close>.
\<close>

definition stale_cache :: cache where
  "stale_cache =
     run ideal [Ns_set ''a_2'' ''x'' (PStr ''stale'') 0 0, Ns_get ''a'' ''1_x''] Map.empty"

section \<open>Concurrent callers of \<^verbatim>\<open>_get_key\<close>\<close>

text \<open>
  \<^verbatim>\<open>_get_key\<close> touches the cache in two calls, \<^verbatim>\<open>self.add\<close> and (when the add failed)
  \<^verbatim>\<open>self.get\<close>; each is one atomic operation of the cache, and another caller can run
  between them.  A caller is therefore a small state machine: about to add (\<open>Calling\<close>),
  about to read the counter after a failed add (\<open>Reading\<close>), or returned with its key
  (\<open>Returned\<close>).  \<open>caller_step\<close> is \<^verbatim>\<open>_get_key\<close> cut at these two calls.
\<close>

datatype caller = Calling string | Reading string | Returned string

fun caller_step :: "'s memcache \<Rightarrow> string \<Rightarrow> caller \<Rightarrow> 's \<Rightarrow> caller \<times> 's" where
  "caller_step self ns (Calling key) s =
     (let ns_key = ''__ns_'' @ ns;
          id0 = PStr ''1'';
          (r, s1) = mc_add self ns_key id0 0 0 s
      in if \<not> truthy r then (Reading key, s1)
         else (Returned (''__'' @ ns @ ''_'' @ py_str id0 @ ''_'' @ key), s1))"
| "caller_step self ns (Reading key) s =
     (let ns_key = ''__ns_'' @ ns;
          (id1, s2) = mc_get self ns_key s
      in (Returned (''__'' @ ns @ ''_'' @ py_str id1 @ ''_'' @ key), s2))"
| "caller_step self ns (Returned nk) s = (Returned nk, s)"

declare caller_step.simps(1,2) [simp del]

text \<open>
  Several callers on one cache: a schedule is the list of the callers' indices in the order
  in which they take their steps.  An index out of range, and a caller that has returned,
  do nothing.
\<close>

fun interleaving ::
  "'s memcache \<Rightarrow> string \<Rightarrow> nat list \<Rightarrow> caller list \<times> 's \<Rightarrow> caller list \<times> 's" where
  "interleaving self ns [] cfg = cfg"
| "interleaving self ns (i # sched) (cs, s) =
     (if i < length cs
      then interleaving self ns sched
             (cs[i := fst (caller_step self ns (cs ! i) s)], snd (caller_step self ns (cs ! i) s))
      else interleaving self ns sched (cs, s))"

text \<open>
  A step in which the add succeeded (the caller went from \<open>Calling\<close> straight to
  \<open>Returned\<close>), and the number of such steps in a schedule.
\<close>

fun add_succeeded :: "caller \<Rightarrow> caller \<Rightarrow> bool" where
  "add_succeeded (Calling key) (Returned nk) = True"
| "add_succeeded c c' = False"

fun creations :: "'s memcache \<Rightarrow> string \<Rightarrow> nat list \<Rightarrow> caller list \<times> 's \<Rightarrow> nat" where
  "creations self ns [] cfg = 0"
| "creations self ns (i # sched) (cs, s) =
     (if i < length cs
      then (if add_succeeded (cs ! i) (fst (caller_step self ns (cs ! i) s)) then 1 else 0)
           + creations self ns sched
               (cs[i := fst (caller_step self ns (cs ! i) s)], snd (caller_step self ns (cs ! i) s))
      else creations self ns sched (cs, s))"

text \<open>
  How far a caller is.
\<close>

fun rank :: "caller \<Rightarrow> nat" where
  "rank (Calling key) = 0"
| "rank (Reading key) = 1"
| "rank (Returned nk) = 2"

text \<open>
  The invariant of first access to a fresh namespace: every caller is at its start, has
  failed its add, or has returned the key of version \<open>1\<close>; and either the counter does not
  exist and nobody has moved, or it holds \<^verbatim>\<open>'1'\<close>.
\<close>

definition caller_ok :: "string \<Rightarrow> string \<Rightarrow> caller \<Rightarrow> bool" where
  "caller_ok ns key c =
     (c = Calling key \<or> c = Reading key \<or> c = Returned (effective_key ns ''1'' key))"

definition first_access_inv :: "string \<Rightarrow> string list \<Rightarrow> caller list \<times> cache \<Rightarrow> bool" where
  "first_access_inv ns keys cfg =
     (list_all2 (caller_ok ns) keys (fst cfg)
      \<and> (snd cfg (control_key ns) = None \<and> fst cfg = map Calling keys
         \<or> snd cfg (control_key ns) = Some (PStr ''1'')))"

section \<open>Decimal numerals\<close>

lemma digit_val_char: "d < 10 \<Longrightarrow> digit_val (digit_char d) = d"
proof -
  assume "d < 10"
  then have "d \<in> {0,1,2,3,4,5,6,7,8,9}" by auto
  then show ?thesis by (auto simp: digit_val_def digit_char_def)
qed

lemma is_digit_char: "d < 10 \<Longrightarrow> is_digit (digit_char d)"
proof -
  assume "d < 10"
  then have "d \<in> {0,1,2,3,4,5,6,7,8,9}" by auto
  then show ?thesis by (auto simp: is_digit_def digit_char_def)
qed

lemma str_nat_ne: "str_nat n \<noteq> []"
  by (subst str_nat.simps) simp

lemma str_nat_digits: "list_all is_digit (str_nat n)"
proof (induction n rule: str_nat.induct)
  case (1 n)
  show ?case by (subst str_nat.simps) (use 1 in \<open>auto simp: is_digit_char\<close>)
qed

lemma parse_nat_snoc: "parse_nat (s @ [c]) = 10 * parse_nat s + digit_val c"
  by (simp add: parse_nat_def)

lemma parse_str_nat: "parse_nat (str_nat n) = n"
proof (induction n rule: str_nat.induct)
  case (1 n)
  show ?case
  proof (cases "n < 10")
    case True
    then show ?thesis by (subst str_nat.simps) (simp add: parse_nat_def digit_val_char)
  next
    case False
    then show ?thesis using 1 by (subst str_nat.simps) (simp add: parse_nat_snoc digit_val_char)
  qed
qed

lemma numeric_with_count: "numeric v = Some n \<Longrightarrow> numeric (with_count v m) = Some m"
  by (cases v) (simp_all add: str_nat_ne str_nat_digits parse_str_nat)

lemma py_str_with_count: "numeric v = Some n \<Longrightarrow> py_str (with_count v m) = str_nat m"
  by (cases v) (simp_all add: str_int_def)

lemma numeric_py_str: "numeric v = Some n \<Longrightarrow> parse_nat (py_str v) = n"
  by (cases v) (auto simp: str_int_def parse_str_nat split: if_splits)

lemma str_nat_neq_py_str: "numeric v = Some n \<Longrightarrow> m \<noteq> n \<Longrightarrow> str_nat m \<noteq> py_str v"
  using numeric_py_str parse_str_nat by metis

subsection \<open>Control keys and effective keys\<close>

lemma control_neq_effective:
  "count_list ns (CHR ''_'') \<le> count_list ns' (CHR ''_'') \<Longrightarrow> control_key ns \<noteq> effective_key ns' v k"
proof
  assume le: "count_list ns (CHR ''_'') \<le> count_list ns' (CHR ''_'')"
    and eq: "control_key ns = effective_key ns' v k"
  have "count_list (control_key ns) (CHR ''_'') = 3 + count_list ns (CHR ''_'')"
    by (simp add: control_key_def)
  moreover have "count_list (effective_key ns' v k) (CHR ''_'')
      = 4 + count_list ns' (CHR ''_'') + count_list v (CHR ''_'') + count_list k (CHR ''_'')"
    by (simp add: effective_key_def)
  ultimately show False using le eq by simp
qed

lemma control_neq_effective_same: "control_key ns \<noteq> effective_key ns v k"
  by (rule control_neq_effective) simp

lemma control_neq_effective_plain:
  "CHR ''_'' \<notin> set ns \<Longrightarrow> control_key ns \<noteq> effective_key ns' v k"
  by (rule control_neq_effective) simp

lemma control_key_inj: "(control_key a = control_key b) = (a = b)"
  by (simp add: control_key_def)

lemma effective_key_version: "(effective_key ns v k = effective_key ns v' k) = (v = v')"
  by (simp add: effective_key_def)

lemma split_first:
  "c \<notin> set a \<Longrightarrow> c \<notin> set b \<Longrightarrow> a @ c # r = b @ c # r' \<Longrightarrow> a = b \<and> r = r'"
proof (induction a arbitrary: b)
  case Nil
  then show ?case by (cases b) auto
next
  case (Cons x a)
  then show ?case by (cases b) auto
qed

lemma effective_key_ns:
  assumes "CHR ''_'' \<notin> set ns" "CHR ''_'' \<notin> set ns'"
    and "effective_key ns v k = effective_key ns' v' k'"
  shows "ns = ns' \<and> v @ CHR ''_'' # k = v' @ CHR ''_'' # k'"
  using split_first[OF assms(1,2), of "v @ CHR ''_'' # k" "v' @ CHR ''_'' # k'"] assms(3)
  by (simp add: effective_key_def)

lemma effective_key_inj:
  assumes "CHR ''_'' \<notin> set ns" "CHR ''_'' \<notin> set ns'" "CHR ''_'' \<notin> set v" "CHR ''_'' \<notin> set v'"
  shows "(effective_key ns v k = effective_key ns' v' k') = (ns = ns' \<and> v = v' \<and> k = k')"
  using effective_key_ns[OF assms(1,2)] split_first[OF assms(3,4)] by blast

lemma split_last:
  assumes "c \<notin> set a" "c \<notin> set b" "r @ c # a = r' @ c # b"
  shows "r = r' \<and> a = b"
proof -
  have "rev (r @ c # a) = rev (r' @ c # b)" using assms(3) by simp
  then have "rev a @ c # rev r = rev b @ c # rev r'" by simp
  moreover have "c \<notin> set (rev a)" "c \<notin> set (rev b)" using assms(1,2) by simp_all
  ultimately have "rev a = rev b \<and> rev r = rev r'" by (rule split_first[rotated 2])
  then show ?thesis by simp
qed

lemma effective_key_exact:
  "(effective_key na va ka = effective_key nb vb kb)
     = (na @ ''_'' @ va @ ''_'' @ ka = nb @ ''_'' @ vb @ ''_'' @ kb)"
  by (simp add: effective_key_def)

lemma effective_key_same_ns:
  assumes "CHR ''_'' \<notin> set va" "CHR ''_'' \<notin> set vb"
  shows "(effective_key na va ka = effective_key na vb kb) = (va = vb \<and> ka = kb)"
  using split_first[OF assms, of ka kb] by (auto simp: effective_key_def)

lemma effective_key_plain_keys:
  assumes v: "CHR ''_'' \<notin> set va" "CHR ''_'' \<notin> set vb"
    and k: "CHR ''_'' \<notin> set ka" "CHR ''_'' \<notin> set kb"
  shows "(effective_key na va ka = effective_key nb vb kb) = (na = nb \<and> va = vb \<and> ka = kb)"
proof
  assume "effective_key na va ka = effective_key nb vb kb"
  then have "(na @ CHR ''_'' # va) @ CHR ''_'' # ka = (nb @ CHR ''_'' # vb) @ CHR ''_'' # kb"
    by (simp add: effective_key_def)
  from split_last[OF k this] have "na @ CHR ''_'' # va = nb @ CHR ''_'' # vb" and "ka = kb"
    by simp_all
  with split_last[OF v] show "na = nb \<and> va = vb \<and> ka = kb" by blast
qed simp

subsection \<open>The layer on the ideal cache\<close>

lemma get_key_resolveKey: "get_key c ns k s = resolveKey c ns k s"
  by (simp add: get_key_def resolveKey_def control_key_def effective_key_def Let_def split_def)

lemma resolveKey_ideal:
  "resolveKey ideal ns k s =
     (case s (control_key ns) of
        None \<Rightarrow> (effective_key ns ''1'' k, s(control_key ns \<mapsto> PStr ''1''))
      | Some v \<Rightarrow> (effective_key ns (py_str v) k, s))"
  by (simp add: resolveKey_def ideal_def cache_add_def cache_get_def Let_def split: option.split)

lemma ns_flush_ideal:
  "ns_flush ideal ns s =
     (case counter s ns of
        None \<Rightarrow> s(control_key ns \<mapsto> PInt 1)
      | Some n \<Rightarrow> s(control_key ns \<mapsto> with_count (the (s (control_key ns))) (n + 1)))"
  by (auto simp add: ns_flush_def ideal_def cache_incr_def cache_set_def counter_def control_key_def Let_def split: option.split)

lemma ideal_sel:
  "mc_get ideal = cache_get" "mc_set ideal = cache_set" "mc_add ideal = cache_add"
  "mc_incr ideal = cache_incr" "mc_decr ideal = cache_decr" "mc_delete ideal = cache_delete"
  by (simp_all add: ideal_def)

lemma unreachable_sel:
  "mc_get unreachable key u = (PNone, u)"
  "mc_set unreachable key v t m u = (PBool False, u)"
  "mc_add unreachable key v t m u = (PBool False, u)"
  "mc_incr unreachable key d u = (PNone, u)"
  "mc_decr unreachable key d u = (PNone, u)"
  "mc_delete unreachable key u = (PBool False, u)"
  by (simp_all add: unreachable_def)

lemmas ideal_prims = ideal_sel cache_get_def cache_set_def cache_add_def cache_incr_def
  cache_decr_def cache_delete_def

lemmas eval_defs = ns_get_def ns_set_def ns_add_def ns_incr_def ns_decr_def ns_delete_def
  ns_flush_def get_key_def ideal_prims control_key_def effective_key_def counter_def
  is_digit_def parse_nat_def digit_val_def digit_char_def str_int_def str_nat.simps Let_def

lemma get_key_ideal_absent:
  "s (control_key ns) = None \<Longrightarrow>
   get_key ideal ns k s = (effective_key ns ''1'' k, s(control_key ns \<mapsto> PStr ''1''))"
  by (simp add: get_key_resolveKey resolveKey_ideal)

lemma get_key_ideal_present:
  "s (control_key ns) = Some v \<Longrightarrow> get_key ideal ns k s = (effective_key ns (py_str v) k, s)"
  by (simp add: get_key_resolveKey resolveKey_ideal)

lemma get_key_ideal_effective: "\<exists>v. fst (get_key ideal ns k s) = effective_key ns v k"
  by (cases "s (control_key ns)") (auto simp: get_key_ideal_absent get_key_ideal_present)

lemma get_key_ideal_frame:
  "key \<noteq> control_key ns \<Longrightarrow> snd (get_key ideal ns k s) key = s key"
  by (cases "s (control_key ns)") (auto simp: get_key_ideal_absent get_key_ideal_present)

lemma get_key_ideal_keeps:
  "s key \<noteq> None \<Longrightarrow> snd (get_key ideal ns k s) key = s key"
  by (cases "s (control_key ns)") (auto simp: get_key_ideal_absent get_key_ideal_present)

lemma get_key_ideal_control: "snd (get_key ideal ns k s) (control_key ns) \<noteq> None"
  by (cases "s (control_key ns)") (auto simp: get_key_ideal_absent get_key_ideal_present)

lemma cache_frame:
  assumes "key' \<noteq> key"
  shows "snd (cache_get key s) key' = s key'"
    and "snd (cache_set key v t m s) key' = s key'"
    and "snd (cache_add key v t m s) key' = s key'"
    and "snd (cache_incr key d s) key' = s key'"
    and "snd (cache_decr key d s) key' = s key'"
    and "snd (cache_delete key s) key' = s key'"
  using assms
  by (simp_all add: cache_get_def cache_set_def cache_add_def cache_incr_def cache_decr_def
      cache_delete_def Let_def split: option.split)

lemma ns_frame:
  assumes "key' \<noteq> fst (get_key ideal ns k s)"
  shows "snd (ns_get ideal ns k s) key' = snd (get_key ideal ns k s) key'"
    and "snd (ns_set ideal ns k v t m s) key' = snd (get_key ideal ns k s) key'"
    and "snd (ns_add ideal ns k v t m s) key' = snd (get_key ideal ns k s) key'"
    and "snd (ns_incr ideal ns k d s) key' = snd (get_key ideal ns k s) key'"
    and "snd (ns_decr ideal ns k d s) key' = snd (get_key ideal ns k s) key'"
    and "snd (ns_delete ideal ns k s) key' = snd (get_key ideal ns k s) key'"
  using assms
  by (simp_all add: ns_get_def ns_set_def ns_add_def ns_incr_def ns_decr_def ns_delete_def
      ideal_sel split_def Let_def cache_frame)

lemma ns_flush_ideal_frame: "key \<noteq> control_key ns \<Longrightarrow> ns_flush ideal ns s key = s key"
  by (simp add: ns_flush_ideal split: option.split)

lemma ns_flush_ideal_control: "ns_flush ideal ns s (control_key ns) \<noteq> None"
  by (simp add: ns_flush_ideal split: option.split)

lemma ns_flush_ideal_counter:
  "counter s ns = Some n \<Longrightarrow> counter (ns_flush ideal ns s) ns = Some (n + 1)"
  by (auto simp: ns_flush_ideal counter_def numeric_with_count split: option.splits)

lemma get_key_ideal_obtain:
  "\<exists>c. snd (get_key ideal ns k s) (control_key ns) = Some c
       \<and> fst (get_key ideal ns k s) = effective_key ns (py_str c) k"
  by (cases "s (control_key ns)") (auto simp: get_key_ideal_absent get_key_ideal_present)

lemma ns_unfold:
  "ns_get c ns k s = mc_get c (fst (get_key c ns k s)) (snd (get_key c ns k s))"
  "ns_set c ns k v t m s = mc_set c (fst (get_key c ns k s)) v t m (snd (get_key c ns k s))"
  "ns_add c ns k v t m s = mc_add c (fst (get_key c ns k s)) v t m (snd (get_key c ns k s))"
  "ns_incr c ns k d s = mc_incr c (fst (get_key c ns k s)) d (snd (get_key c ns k s))"
  "ns_decr c ns k d s = mc_decr c (fst (get_key c ns k s)) d (snd (get_key c ns k s))"
  "ns_delete c ns k s = mc_delete c (fst (get_key c ns k s)) (snd (get_key c ns k s))"
  by (simp_all add: ns_get_def ns_set_def ns_add_def ns_incr_def ns_decr_def ns_delete_def
      split_def Let_def)

lemma ns_set_ideal:
  "snd (ns_set ideal ns k v t m s) =
     (snd (get_key ideal ns k s))(fst (get_key ideal ns k s) \<mapsto> v)"
  by (simp add: ns_unfold ideal_sel cache_set_def)

lemma ns_get_ideal:
  "ns_get ideal ns k s =
     (case snd (get_key ideal ns k s) (fst (get_key ideal ns k s)) of None \<Rightarrow> PNone | Some v \<Rightarrow> v,
      snd (get_key ideal ns k s))"
  by (simp add: ns_unfold ideal_sel cache_get_def)

lemma ns_set_ns_get:
  "ns_get ideal ns k (snd (ns_set ideal ns k v t m s)) = (v, snd (ns_set ideal ns k v t m s))"
proof -
  obtain c where c: "snd (get_key ideal ns k s) (control_key ns) = Some c"
    and e: "fst (get_key ideal ns k s) = effective_key ns (py_str c) k"
    using get_key_ideal_obtain by blast
  let ?s1 = "snd (ns_set ideal ns k v t m s)"
  have "?s1 (control_key ns) = Some c"
    using c control_neq_effective_same[of ns "py_str c" k] by (simp add: ns_set_ideal e)
  then have "get_key ideal ns k ?s1 = (effective_key ns (py_str c) k, ?s1)"
    by (rule get_key_ideal_present)
  then show ?thesis
    by (simp add: ns_get_ideal) (simp add: ns_set_ideal e)
qed

lemma ns_set_ideal_control: "snd (ns_set ideal ns k v t m s) (control_key ns) \<noteq> None"
proof -
  have "control_key ns \<noteq> fst (get_key ideal ns k s)"
    using get_key_ideal_effective[of ns k s] control_neq_effective_same by metis
  then show ?thesis
    by (simp only: ns_frame get_key_ideal_control not_False_eq_True)
qed

lemma ns_get_ideal_state: "s (control_key ns) \<noteq> None \<Longrightarrow> snd (ns_get ideal ns k s) = s"
  by (auto simp: ns_get_ideal get_key_ideal_present)

lemma cache_incr_counter:
  assumes "s key = Some c" "numeric c = Some n"
  shows "\<exists>c' n'. snd (cache_incr key d s) key = Some c' \<and> numeric c' = Some n' \<and> n \<le> n'"
  using assms by (simp add: cache_incr_def numeric_with_count)

lemma ns_incr_ideal_counter:
  assumes "counter s ns = Some n"
  shows "\<exists>n'. counter (snd (ns_incr ideal ns' k d s)) ns = Some n' \<and> n \<le> n'"
proof -
  let ?ck = "control_key ns"
  let ?s1 = "snd (get_key ideal ns' k s)"
  obtain c where c: "s ?ck = Some c" and num: "numeric c = Some n"
    using assms by (auto simp: counter_def split: option.splits)
  have s1: "?s1 ?ck = Some c"
    using c by (simp add: get_key_ideal_keeps)
  show ?thesis
  proof (cases "?ck = fst (get_key ideal ns' k s)")
    case True
    from cache_incr_counter[where s = "?s1" and key = "?ck" and d = d, OF s1 num]
    show ?thesis
      by (auto simp: ns_unfold ideal_sel counter_def True[symmetric])
  next
    case False
    then show ?thesis
      using s1 num by (simp add: ns_frame counter_def)
  qed
qed

lemma ns_decr_ideal_counter:
  assumes "counter s ns = Some n" and "d \<le> 0"
  shows "counter (snd (ns_decr ideal ns' k d s)) ns = Some n"
proof -
  let ?ck = "control_key ns"
  let ?s1 = "snd (get_key ideal ns' k s)"
  obtain c where c: "s ?ck = Some c" and num: "numeric c = Some n"
    using assms(1) by (auto simp: counter_def split: option.splits)
  have s1: "?s1 ?ck = Some c"
    using c by (simp add: get_key_ideal_keeps)
  show ?thesis
  proof (cases "?ck = fst (get_key ideal ns' k s)")
    case True
    have "\<exists>c'. snd (cache_decr ?ck d ?s1) ?ck = Some c' \<and> numeric c' = Some n"
      using s1 num assms(2) by (auto simp: cache_decr_def Let_def numeric_with_count)
    then show ?thesis
      by (auto simp: ns_unfold ideal_sel counter_def True[symmetric])
  next
    case False
    then show ?thesis
      using s1 num by (simp add: ns_frame counter_def)
  qed
qed

lemma ns_add_ideal_present:
  assumes "s key \<noteq> None"
  shows "snd (ns_add ideal ns k v t m s) key = s key"
proof -
  let ?s1 = "snd (get_key ideal ns k s)"
  have s1: "?s1 key = s key" using assms by (rule get_key_ideal_keeps)
  show ?thesis
  proof (cases "key = fst (get_key ideal ns k s)")
    case True
    then show ?thesis
      using s1 assms by (auto simp: ns_unfold ideal_sel cache_add_def)
  next
    case False
    then show ?thesis using s1 by (simp add: ns_frame)
  qed
qed

lemma ns_get_ideal_keeps:
  assumes "s key \<noteq> None"
  shows "snd (ns_get ideal ns k s) key = s key"
  using assms by (simp add: ns_get_ideal get_key_ideal_keeps)

lemma exec_ideal_counter:
  assumes cnt: "counter s ns = Some n" and ok: "\<not> clobbers (control_key ns) c s"
  shows "\<exists>n'. counter (exec ideal c s) ns = Some n' \<and> n + flushes ns [c] \<le> n'"
proof -
  let ?ck = "control_key ns"
  have pres: "s ?ck \<noteq> None"
    using cnt by (auto simp: counter_def split: option.splits)
  have same: "counter t ns = Some n" if "t ?ck = s ?ck" for t
    using that cnt by (simp add: counter_def)
  have keep: "snd (get_key ideal ns' k s) ?ck = s ?ck" for ns' k
    using pres by (rule get_key_ideal_keeps)
  show ?thesis
  proof (cases c)
    case (Ns_get ns' k)
    then show ?thesis
      using same[of "snd (ns_get ideal ns' k s)"] pres
      by (simp add: ns_get_ideal_keeps flushes_def)
  next
    case (Ns_set ns' k v t m)
    then have "?ck \<noteq> fst (get_key ideal ns' k s)" using ok by auto
    then show ?thesis
      using Ns_set same[of "snd (ns_set ideal ns' k v t m s)"]
      by (simp add: ns_frame keep flushes_def)
  next
    case (Ns_add ns' k v t m)
    then show ?thesis
      using same[of "snd (ns_add ideal ns' k v t m s)"] pres
      by (simp add: ns_add_ideal_present flushes_def)
  next
    case (Ns_incr ns' k d)
    then show ?thesis
      using ns_incr_ideal_counter[OF cnt, of ns' k d] by (simp add: flushes_def)
  next
    case (Ns_decr ns' k d)
    show ?thesis
    proof (cases "0 < d")
      case True
      then have "?ck \<noteq> fst (get_key ideal ns' k s)" using ok Ns_decr by auto
      then show ?thesis
        using Ns_decr same[of "snd (ns_decr ideal ns' k d s)"]
        by (simp add: ns_frame keep flushes_def)
    next
      case False
      then have "d \<le> 0" by simp
      from ns_decr_ideal_counter[OF cnt this, of ns' k]
      show ?thesis using Ns_decr by (simp add: flushes_def)
    qed
  next
    case (Ns_delete ns' k)
    then have "?ck \<noteq> fst (get_key ideal ns' k s)" using ok by auto
    then show ?thesis
      using Ns_delete same[of "snd (ns_delete ideal ns' k s)"]
      by (simp add: ns_frame keep flushes_def)
  next
    case (Ns_flush ns')
    show ?thesis
    proof (cases "ns' = ns")
      case True
      then show ?thesis
        using Ns_flush ns_flush_ideal_counter[OF cnt] by (simp add: flushes_def)
    next
      case False
      then have "?ck \<noteq> control_key ns'" by (simp add: control_key_inj)
      then show ?thesis
        using Ns_flush False same[of "ns_flush ideal ns' s"]
        by (simp add: ns_flush_ideal_frame flushes_def)
    qed
  qed
qed

lemma flushes_Cons: "flushes ns (c # cs) = flushes ns [c] + flushes ns cs"
  by (simp add: flushes_def)

lemma run_ideal_counter_unspoiled:
  "counter s ns = Some n \<Longrightarrow> \<not> spoiled (control_key ns) cs s \<Longrightarrow>
   \<exists>n'. counter (run ideal cs s) ns = Some n' \<and> n + flushes ns cs \<le> n'"
proof (induction cs arbitrary: s n)
  case Nil
  then show ?case by (simp add: flushes_def)
next
  case (Cons c cs)
  from Cons.prems(2) have ok: "\<not> clobbers (control_key ns) c s"
    and rest: "\<not> spoiled (control_key ns) cs (exec ideal c s)"
    by simp_all
  from exec_ideal_counter[OF Cons.prems(1) ok]
  obtain m where m: "counter (exec ideal c s) ns = Some m" and le: "n + flushes ns [c] \<le> m"
    by blast
  from Cons.IH[OF m rest]
  obtain n' where "counter (run ideal cs (exec ideal c s)) ns = Some n'"
    and "m + flushes ns cs \<le> n'"
    by blast
  then show ?case
    using le by (simp add: flushes_Cons[of ns c cs])
qed

lemma get_key_after_set:
  "get_key ideal ns k (snd (ns_set ideal ns k v t m s))
     = (fst (get_key ideal ns k s), snd (ns_set ideal ns k v t m s))"
proof -
  obtain c where c: "snd (get_key ideal ns k s) (control_key ns) = Some c"
    and e: "fst (get_key ideal ns k s) = effective_key ns (py_str c) k"
    using get_key_ideal_obtain by blast
  let ?s1 = "snd (ns_set ideal ns k v t m s)"
  have "?s1 (control_key ns) = Some c"
    using c control_neq_effective_same[of ns "py_str c" k] by (simp add: ns_set_ideal e)
  then have "get_key ideal ns k ?s1 = (effective_key ns (py_str c) k, ?s1)"
    by (rule get_key_ideal_present)
  then show ?thesis by (simp add: e)
qed

lemma control_neq_resolved: "control_key ns \<noteq> fst (get_key ideal ns k s)"
  using get_key_ideal_effective[of ns k s] control_neq_effective_same by metis

lemma ns_get_ideal_same:
  assumes ck: "t (control_key ns) = s (control_key ns)"
    and ek: "t (fst (get_key ideal ns k s)) = s (fst (get_key ideal ns k s))"
  shows "fst (get_key ideal ns k t) = fst (get_key ideal ns k s)
       \<and> fst (ns_get ideal ns k t) = fst (ns_get ideal ns k s)"
proof (cases "s (control_key ns)")
  case None
  then have t: "t (control_key ns) = None" using ck by simp
  show ?thesis
    using ek None t control_neq_effective_same[of ns "''1''" k]
    by (simp add: ns_get_ideal get_key_ideal_absent)
next
  case (Some c)
  then have t: "t (control_key ns) = Some c" using ck by simp
  show ?thesis
    using ek Some t
    by (simp add: ns_get_ideal get_key_ideal_present)
qed

lemma control_neq_resolved_plain:
  assumes "CHR ''_'' \<notin> set ns2 \<or> take 2 ns1 \<noteq> ''ns''"
  shows "control_key ns2 \<noteq> fst (get_key ideal ns1 k s)"
proof -
  obtain v where v: "fst (get_key ideal ns1 k s) = effective_key ns1 v k"
    using get_key_ideal_effective by blast
  from assms show ?thesis
  proof
    assume "CHR ''_'' \<notin> set ns2"
    then show ?thesis unfolding v by (rule control_neq_effective_plain)
  next
    assume ns: "take 2 ns1 \<noteq> ''ns''"
    show ?thesis
    proof
      assume "control_key ns2 = fst (get_key ideal ns1 k s)"
      then have eq: "''ns_'' @ ns2 = ns1 @ ''_'' @ v @ ''_'' @ k"
        by (simp add: v control_key_def effective_key_def)
      show False
      proof (cases ns1)
        case Nil
        then show ?thesis using eq by simp
      next
        case (Cons a r)
        then show ?thesis using eq ns by (cases r) auto
      qed
    qed
  qed
qed

lemma never_spoiled_plain:
  assumes "CHR ''_'' \<notin> set ns"
  shows "\<not> spoiled (control_key ns) cs s"
proof (induction cs arbitrary: s)
  case Nil
  show ?case by simp
next
  case (Cons c cs)
  have "\<not> clobbers (control_key ns) c s"
    using control_neq_resolved_plain[of ns, OF disjI1[OF assms]]
    by (cases c) (auto simp: eq_commute)
  then show ?case using Cons by simp
qed

subsection \<open>Interleaved callers\<close>

lemma caller_alone_is_get_key:
  "interleaving self ns [0, 0] ([Calling key], s) =
     ([Returned (fst (get_key self ns key s))], snd (get_key self ns key s))"
  by (simp add: caller_step.simps get_key_def Let_def split_def)

lemma caller_step_ideal_fresh:
  "s (control_key ns) = None \<Longrightarrow>
   caller_step ideal ns (Calling key) s =
     (Returned (effective_key ns ''1'' key), s(control_key ns \<mapsto> PStr ''1''))"
  by (simp add: caller_step.simps ideal_prims control_key_def effective_key_def)

lemma caller_step_ideal_calling:
  "s (control_key ns) = Some v \<Longrightarrow> caller_step ideal ns (Calling key) s = (Reading key, s)"
  by (simp add: caller_step.simps ideal_prims control_key_def)

lemma caller_step_ideal_reading:
  "s (control_key ns) = Some v \<Longrightarrow>
   caller_step ideal ns (Reading key) s = (Returned (effective_key ns (py_str v) key), s)"
  by (simp add: caller_step.simps ideal_prims control_key_def effective_key_def)

lemma inv_step:
  assumes inv: "first_access_inv ns keys (cs, s)" and i: "i < length cs"
  shows "first_access_inv ns keys
           (cs[i := fst (caller_step ideal ns (cs ! i) s)], snd (caller_step ideal ns (cs ! i) s))
         \<and> snd (caller_step ideal ns (cs ! i) s) (control_key ns) = Some (PStr ''1'')"
proof -
  have all: "list_all2 (caller_ok ns) keys cs"
    using inv by (simp add: first_access_inv_def)
  then have len: "length keys = length cs" and ok: "caller_ok ns (keys ! i) (cs ! i)"
    using i by (auto simp: list_all2_conv_all_nth)
  have upd: "list_all2 (caller_ok ns) keys (cs[i := c'])" if "caller_ok ns (keys ! i) c'" for c'
    using all that i len
    by (metis list_all2_update_cong list_update_id)
  show ?thesis
  proof (cases "s (control_key ns)")
    case None
    then have "cs = map Calling keys"
      using inv by (simp add: first_access_inv_def)
    then have "cs ! i = Calling (keys ! i)"
      using i by simp
    then have st: "caller_step ideal ns (cs ! i) s =
        (Returned (effective_key ns ''1'' (keys ! i)), s(control_key ns \<mapsto> PStr ''1''))"
      using None by (simp only: caller_step_ideal_fresh)
    show ?thesis
      using upd[of "Returned (effective_key ns ''1'' (keys ! i))"]
      by (simp add: st first_access_inv_def caller_ok_def)
  next
    case (Some v)
    then have v: "s (control_key ns) = Some (PStr ''1'')"
      using inv by (simp add: first_access_inv_def)
    from ok consider "cs ! i = Calling (keys ! i)" | "cs ! i = Reading (keys ! i)"
      | "cs ! i = Returned (effective_key ns ''1'' (keys ! i))"
      by (auto simp: caller_ok_def)
    then show ?thesis
    proof cases
      case 1
      then have st: "caller_step ideal ns (cs ! i) s = (Reading (keys ! i), s)"
        using v by (simp only: caller_step_ideal_calling)
      show ?thesis
        using upd[of "Reading (keys ! i)"] v
        by (simp add: st first_access_inv_def caller_ok_def)
    next
      case 2
      then have st: "caller_step ideal ns (cs ! i) s =
          (Returned (effective_key ns (py_str (PStr ''1'')) (keys ! i)), s)"
        using v by (simp only: caller_step_ideal_reading)
      show ?thesis
        using upd[of "Returned (effective_key ns ''1'' (keys ! i))"] v
        by (simp add: st first_access_inv_def caller_ok_def)
    next
      case 3
      then have st: "caller_step ideal ns (cs ! i) s = (cs ! i, s)"
        by simp
      show ?thesis
        using inv v by (simp add: st first_access_inv_def)
    qed
  qed
qed

lemma inv_interleaving:
  "first_access_inv ns keys cfg \<Longrightarrow> first_access_inv ns keys (interleaving ideal ns sched cfg)"
proof (induction sched arbitrary: cfg)
  case Nil
  then show ?case by simp
next
  case (Cons i sched)
  obtain cs s where cfg: "cfg = (cs, s)" by (cases cfg)
  show ?case
  proof (cases "i < length cs")
    case True
    from inv_step[OF Cons.prems[unfolded cfg] True] Cons.IH show ?thesis
      using True by (simp add: cfg)
  next
    case False
    then show ?thesis using Cons by (simp add: cfg)
  qed
qed

lemma rank_step: "min 2 (Suc (rank c)) \<le> rank (fst (caller_step self ns c s))"
  by (cases c) (simp_all add: caller_step.simps Let_def split_def)

lemma length_interleaving:
  "length (fst (interleaving self ns sched (cs, s))) = length cs"
  by (induction sched arbitrary: cs s) simp_all

lemma progress:
  "j < length cs \<Longrightarrow>
   min 2 (rank (cs ! j) + count_list sched j)
     \<le> rank (fst (interleaving self ns sched (cs, s)) ! j)"
proof (induction sched arbitrary: cs s)
  case Nil
  then show ?case by simp
next
  case (Cons i sched)
  show ?case
  proof (cases "i < length cs")
    case False
    then have "i \<noteq> j" using Cons.prems by auto
    then show ?thesis using False Cons.IH[OF Cons.prems, of s] by simp
  next
    case True
    let ?c = "fst (caller_step self ns (cs ! i) s)"
    let ?s = "snd (caller_step self ns (cs ! i) s)"
    have j: "j < length (cs[i := ?c])" using Cons.prems by simp
    note ih = Cons.IH[OF j, of ?s]
    show ?thesis
    proof (cases "i = j")
      case True
      have "min 2 (rank (cs ! j) + count_list (i # sched) j)
          \<le> min 2 (rank ?c + count_list sched j)"
        using rank_step[of "cs ! i" self ns s] True by simp
      then show ?thesis
        using ih True Cons.prems by simp
    next
      case False
      then show ?thesis
        using ih True by simp
    qed
  qed
qed

lemma rank_2: "rank c = 2 \<Longrightarrow> \<exists>nk. c = Returned nk"
  by (cases c) simp_all

lemma counter_stays:
  "first_access_inv ns keys (cs, s) \<Longrightarrow> s (control_key ns) = Some (PStr ''1'') \<Longrightarrow>
   snd (interleaving ideal ns sched (cs, s)) (control_key ns) = Some (PStr ''1'')
   \<and> creations ideal ns sched (cs, s) = 0"
proof (induction sched arbitrary: cs s)
  case Nil
  then show ?case by simp
next
  case (Cons i sched)
  show ?case
  proof (cases "i < length cs")
    case False
    then show ?thesis using Cons by simp
  next
    case True
    note st = inv_step[OF Cons.prems(1) True]
    have "\<not> add_succeeded (cs ! i) (fst (caller_step ideal ns (cs ! i) s))"
      using Cons.prems(2) by (cases "cs ! i") (simp_all add: caller_step_ideal_calling)
    then show ?thesis
      using Cons.IH[of "cs[i := fst (caller_step ideal ns (cs ! i) s)]"
          "snd (caller_step ideal ns (cs ! i) s)"] st True
      by simp
  qed
qed

lemma first_creates:
  assumes fresh: "s (control_key ns) = None"
  shows "creations ideal ns sched (map Calling keys, s)
           = (if \<exists>i\<in>set sched. i < length keys then 1 else 0)
         \<and> ((\<exists>i\<in>set sched. i < length keys) \<longrightarrow>
             snd (interleaving ideal ns sched (map Calling keys, s)) (control_key ns)
               = Some (PStr ''1''))"
proof (induction sched)
  case Nil
  then show ?case by simp
next
  case (Cons i sched)
  have inv: "first_access_inv ns keys (map Calling keys, s)"
    using fresh by (simp add: first_access_inv_def caller_ok_def list_all2_conv_all_nth)
  show ?case
  proof (cases "i < length keys")
    case False
    then show ?thesis using Cons by simp
  next
    case True
    then have i: "i < length (map Calling keys)" by simp
    note st = inv_step[OF inv i]
    have stp: "caller_step ideal ns (map Calling keys ! i) s =
        (Returned (effective_key ns ''1'' (keys ! i)), s(control_key ns \<mapsto> PStr ''1''))"
      using True fresh by (simp add: caller_step_ideal_fresh)
    have "add_succeeded (map Calling keys ! i)
        (fst (caller_step ideal ns (map Calling keys ! i) s))"
      unfolding stp using True by simp
    then show ?thesis
      using counter_stays[OF conjunct1[OF st] conjunct2[OF st], of sched] True i
      by auto
  qed
qed

section \<open>The claims that hold for every cache client\<close>

text \<open>
  C2.  For every implementation of the primitives, every namespace and logical key and every
  cache state, \<^verbatim>\<open>_get_key\<close> is the spec's \<^verbatim>\<open>resolveKey\<close>: it adds \<^verbatim>\<open>"1"\<close> under the control key
  \<^verbatim>\<open>"__ns_" + ns\<close>; when the add succeeds the version is \<open>1\<close>; when it fails the version is
  what \<^verbatim>\<open>get\<close> of the control key returns; the result is
  \<^verbatim>\<open>"__" + ns + "_" + version + "_" + k\<close>.
\<close>

theorem get_key_algorithm:
  "get_key cache ns k s = resolveKey cache ns k s
   \<and> (truthy (fst (mc_add cache (control_key ns) (PStr ''1'') 0 0 s)) \<longrightarrow>
        get_key cache ns k s =
          (effective_key ns ''1'' k, snd (mc_add cache (control_key ns) (PStr ''1'') 0 0 s)))
   \<and> (\<not> truthy (fst (mc_add cache (control_key ns) (PStr ''1'') 0 0 s)) \<longrightarrow>
        get_key cache ns k s =
          (effective_key ns
             (py_str (fst (mc_get cache (control_key ns)
                (snd (mc_add cache (control_key ns) (PStr ''1'') 0 0 s))))) k,
           snd (mc_get cache (control_key ns)
                (snd (mc_add cache (control_key ns) (PStr ''1'') 0 0 s)))))"
proof -
  have eq: "get_key cache ns k s = resolveKey cache ns k s"
    by (rule get_key_resolveKey)
  show ?thesis
    unfolding eq by (simp add: resolveKey_def Let_def)
qed

theorem get_key_algorithm_witness:
  "truthy (fst (mc_add ideal (control_key ''ns1'') (PStr ''1'') 0 0 Map.empty))
   \<and> fst (get_key ideal ''ns1'' ''k1'' Map.empty) = ''__ns1_1_k1''
   \<and> fst (mc_get ideal ''__ns_ns1'' (snd (get_key ideal ''ns1'' ''k1'' Map.empty))) = PStr ''1''
   \<and> \<not> truthy (fst (mc_add unreachable (control_key ''ns1'') (PStr ''1'') 0 0 ()))
   \<and> fst (get_key unreachable ''ns1'' ''k1'' ()) = ''__ns1_None_k1''"
proof -
  have h1: "truthy (fst (mc_add ideal (control_key ''ns1'') (PStr ''1'') 0 0 Map.empty))"
    by (simp add: ideal_prims)
  have h2: "\<not> truthy (fst (mc_add unreachable (control_key ''ns1'') (PStr ''1'') 0 0 ()))"
    by (simp add: unreachable_sel)
  from get_key_algorithm [where cache = ideal and ns = "''ns1''" and k = "''k1''" and s = Map.empty] h1
  have a: "get_key ideal ''ns1'' ''k1'' Map.empty =
      (effective_key ''ns1'' ''1'' ''k1'',
       snd (mc_add ideal (control_key ''ns1'') (PStr ''1'') 0 0 Map.empty))"
    by blast
  from get_key_algorithm [where cache = unreachable and ns = "''ns1''" and k = "''k1''" and s = "()"] h2
  have b: "get_key unreachable ''ns1'' ''k1'' () =
      (effective_key ''ns1''
         (py_str (fst (mc_get unreachable (control_key ''ns1'')
            (snd (mc_add unreachable (control_key ''ns1'') (PStr ''1'') 0 0 ()))))) ''k1'',
       snd (mc_get unreachable (control_key ''ns1'')
            (snd (mc_add unreachable (control_key ''ns1'') (PStr ''1'') 0 0 ()))))"
    by blast
  show ?thesis
    using h1 h2 by (simp add: a b ideal_prims unreachable_sel control_key_def effective_key_def)
qed

text \<open>
  C5.  \<^verbatim>\<open>ns_flush\<close> calls \<^verbatim>\<open>incr\<close> on the control key, and sets the control key to \<open>1\<close> exactly
  when the result of \<^verbatim>\<open>incr\<close> is falsy (for every implementation of the primitives).  On the
  ideal cache, a namespace whose control key does not exist makes \<^verbatim>\<open>incr\<close> fail, the flush
  stores \<open>1\<close> under the control key, and the next key resolved is of version \<open>1\<close>.
\<close>

theorem ns_flush_incr_or_set:
  "ns_flush cache ns s =
     (if truthy (fst (mc_incr cache (control_key ns) 1 s))
      then snd (mc_incr cache (control_key ns) 1 s)
      else snd (mc_set cache (control_key ns) (PInt 1) 0 0 (snd (mc_incr cache (control_key ns) 1 s))))
   \<and> (t (control_key ns) = None \<longrightarrow>
        \<not> truthy (fst (mc_incr ideal (control_key ns) 1 t))
        \<and> ns_flush ideal ns t = t(control_key ns \<mapsto> PInt 1)
        \<and> fst (get_key ideal ns k (ns_flush ideal ns t)) = effective_key ns ''1'' k)"
proof -
  have a: "ns_flush cache ns s =
     (if truthy (fst (mc_incr cache (control_key ns) 1 s))
      then snd (mc_incr cache (control_key ns) 1 s)
      else snd (mc_set cache (control_key ns) (PInt 1) 0 0 (snd (mc_incr cache (control_key ns) 1 s))))"
    by (simp add: ns_flush_def control_key_def Let_def split_def)
  have b: "\<not> truthy (fst (mc_incr ideal (control_key ns) 1 t))
        \<and> ns_flush ideal ns t = t(control_key ns \<mapsto> PInt 1)
        \<and> fst (get_key ideal ns k (ns_flush ideal ns t)) = effective_key ns ''1'' k"
    if "t (control_key ns) = None"
  proof -
    have "counter t ns = None" using that by (simp add: counter_def)
    then have fl: "ns_flush ideal ns t = t(control_key ns \<mapsto> PInt 1)"
      by (simp add: ns_flush_ideal)
    have "\<not> truthy (fst (mc_incr ideal (control_key ns) 1 t))"
      using that by (simp add: ideal_prims)
    moreover have "fst (get_key ideal ns k (ns_flush ideal ns t)) = effective_key ns ''1'' k"
      unfolding fl get_key_resolveKey resolveKey_ideal
      by (simp add: str_int_def str_nat.simps digit_char_def)
    ultimately show ?thesis using fl by simp
  qed
  show ?thesis using a b by blast
qed

theorem ns_flush_incr_or_set_witness:
  "(Map.empty :: cache) (control_key ''fresh'') = None
   \<and> ns_flush ideal ''fresh'' Map.empty ''__ns_fresh'' = Some (PInt 1)
   \<and> fst (get_key ideal ''fresh'' ''a'' (ns_flush ideal ''fresh'' Map.empty)) = ''__fresh_1_a''"
proof -
  have h: "(Map.empty :: cache) (control_key ''fresh'') = None" by simp
  from ns_flush_incr_or_set [where cache = ideal and ns = "''fresh''" and s = Map.empty
      and t = Map.empty and k = "''a''"] h
  have "ns_flush ideal ''fresh'' Map.empty = [control_key ''fresh'' \<mapsto> PInt 1]"
    and "fst (get_key ideal ''fresh'' ''a'' (ns_flush ideal ''fresh'' Map.empty))
           = effective_key ''fresh'' ''1'' ''a''"
    by blast+
  then show ?thesis by (simp add: control_key_def effective_key_def)
qed

text \<open>
  C6.  Each of \<^verbatim>\<open>ns_get\<close>, \<^verbatim>\<open>ns_set\<close>, \<^verbatim>\<open>ns_add\<close>, \<^verbatim>\<open>ns_incr\<close>, \<^verbatim>\<open>ns_decr\<close>,
  \<^verbatim>\<open>ns_delete\<close> is \<^verbatim>\<open>resolveKey\<close> followed by the corresponding primitive on the resolved
  key, called with the same value, ttl, compression threshold or amount, and returning what
  the primitive returns (value and state), for every implementation of the primitives.
\<close>

theorem ns_ops_delegate:
  "ns_get cache ns k s = namespaced cache (mc_get cache) ns k s
   \<and> ns_set cache ns k val time min_compress s =
       namespaced cache (\<lambda>nk. mc_set cache nk val time min_compress) ns k s
   \<and> ns_add cache ns k val time min_compress s =
       namespaced cache (\<lambda>nk. mc_add cache nk val time min_compress) ns k s
   \<and> ns_incr cache ns k amount s = namespaced cache (\<lambda>nk. mc_incr cache nk amount) ns k s
   \<and> ns_decr cache ns k amount s = namespaced cache (\<lambda>nk. mc_decr cache nk amount) ns k s
   \<and> ns_delete cache ns k s = namespaced cache (mc_delete cache) ns k s"
  by (simp add: ns_get_def ns_set_def ns_add_def ns_incr_def ns_decr_def ns_delete_def
      namespaced_def get_key_resolveKey split_def Let_def)

text \<open>
  C8.  When the add in \<^verbatim>\<open>_get_key\<close> fails, the key returned is built from whatever \<^verbatim>\<open>get\<close>
  of the control key returns, formatted as a string and not checked: a missing counter
  (\<^verbatim>\<open>None\<close>) gives \<^verbatim>\<open>__<ns>_None_<k>\<close>, a non-numeric string is copied as it is.  The call
  returns a key in every case; \<open>get_key\<close> has no error result.
\<close>

theorem get_key_no_validation:
  assumes "\<not> truthy (fst (mc_add cache (control_key ns) (PStr ''1'') 0 0 s))"
  shows "fst (get_key cache ns k s) =
           ''__'' @ ns @ ''_'' @
           py_str (fst (mc_get cache (control_key ns)
             (snd (mc_add cache (control_key ns) (PStr ''1'') 0 0 s)))) @ ''_'' @ k"
  using assms by (simp add: get_key_def control_key_def Let_def split_def)

theorem get_key_no_validation_witness:
  "\<not> truthy (fst (mc_add unreachable (control_key ''ns1'') (PStr ''1'') 0 0 ()))
   \<and> fst (mc_get unreachable (control_key ''ns1'') ()) = PNone
   \<and> fst (get_key unreachable ''ns1'' ''k1'' ()) = ''__ns1_None_k1''
   \<and> \<not> truthy (fst (mc_add ideal (control_key ''ns1'') (PStr ''1'') 0 0
         [''__ns_ns1'' \<mapsto> PStr ''oops'']))
   \<and> numeric (PStr ''oops'') = None
   \<and> fst (get_key ideal ''ns1'' ''k1'' [''__ns_ns1'' \<mapsto> PStr ''oops'']) = ''__ns1_oops_k1''"
  using get_key_no_validation [where cache = unreachable and ns = "''ns1''" and s = "()" and k = "''k1''"]
    get_key_no_validation [where cache = ideal and ns = "''ns1''"
      and s = "[''__ns_ns1'' \<mapsto> PStr ''oops'']" and k = "''k1''"]
  by (simp add: ideal_prims unreachable_sel control_key_def is_digit_def)

section \<open>The claims about the ideal cache\<close>

text \<open>
  C10.  On the ideal cache, after each of \<^verbatim>\<open>ns_get\<close>, \<^verbatim>\<open>ns_set\<close>, \<^verbatim>\<open>ns_add\<close>, \<^verbatim>\<open>ns_incr\<close>,
  \<^verbatim>\<open>ns_decr\<close>, \<^verbatim>\<open>ns_delete\<close> and \<^verbatim>\<open>ns_flush\<close> on a namespace, the control key of that
  namespace exists, whatever the state before and whatever the namespace and key.  When it
  did not exist before, the read-only calls \<^verbatim>\<open>ns_get\<close> and \<^verbatim>\<open>ns_delete\<close>, and \<^verbatim>\<open>ns_flush\<close>,
  change the cache.
\<close>

theorem control_key_exists_after:
  "snd (ns_get ideal ns k s) (control_key ns) \<noteq> None
   \<and> snd (ns_set ideal ns k v t m s) (control_key ns) \<noteq> None
   \<and> snd (ns_add ideal ns k v t m s) (control_key ns) \<noteq> None
   \<and> snd (ns_incr ideal ns k d s) (control_key ns) \<noteq> None
   \<and> snd (ns_decr ideal ns k d s) (control_key ns) \<noteq> None
   \<and> snd (ns_delete ideal ns k s) (control_key ns) \<noteq> None
   \<and> ns_flush ideal ns s (control_key ns) \<noteq> None
   \<and> (s (control_key ns) = None \<longrightarrow>
        snd (ns_get ideal ns k s) \<noteq> s \<and> snd (ns_delete ideal ns k s) \<noteq> s
        \<and> ns_flush ideal ns s \<noteq> s)"
proof -
  have ne: "control_key ns \<noteq> fst (get_key ideal ns k s)"
    using get_key_ideal_effective[of ns k s] control_neq_effective_same by metis
  note fr = ns_frame[OF ne]
  have ops: "snd (ns_get ideal ns k s) (control_key ns) \<noteq> None"
    "snd (ns_set ideal ns k v t m s) (control_key ns) \<noteq> None"
    "snd (ns_add ideal ns k v t m s) (control_key ns) \<noteq> None"
    "snd (ns_incr ideal ns k d s) (control_key ns) \<noteq> None"
    "snd (ns_decr ideal ns k d s) (control_key ns) \<noteq> None"
    "snd (ns_delete ideal ns k s) (control_key ns) \<noteq> None"
    by (simp_all only: fr get_key_ideal_control not_False_eq_True)
  have fl: "ns_flush ideal ns s (control_key ns) \<noteq> None"
    by (rule ns_flush_ideal_control)
  have "snd (ns_get ideal ns k s) \<noteq> s \<and> snd (ns_delete ideal ns k s) \<noteq> s
        \<and> ns_flush ideal ns s \<noteq> s" if "s (control_key ns) = None"
    using that ops(1) ops(6) fl by metis
  then show ?thesis using ops fl by blast
qed

theorem control_key_exists_after_witness:
  "(Map.empty :: cache) (control_key ''ns1'') = None
   \<and> snd (ns_get ideal ''ns1'' ''a'' Map.empty) (control_key ''ns1'') \<noteq> None
   \<and> snd (ns_get ideal ''ns1'' ''a'' Map.empty) \<noteq> Map.empty
   \<and> snd (ns_delete ideal ''ns1'' ''a'' Map.empty) \<noteq> Map.empty
   \<and> ns_flush ideal ''ns1'' Map.empty \<noteq> Map.empty"
  using control_key_exists_after [where ns = "''ns1''" and k = "''a''" and s = Map.empty]
  by simp

text \<open>
  C9.  Any number of callers resolve keys of one namespace on an ideal cache in which the
  namespace's control key does not exist, their calls of \<^verbatim>\<open>add\<close> and \<^verbatim>\<open>get\<close> interleaved in
  any order.  Then every caller that has returned holds the effective key of version \<open>1\<close>
  for its logical key (so two callers with the same logical key hold the same key); when
  every caller has been scheduled twice, all have returned; at most one add succeeded, and
  exactly one as soon as any caller has moved, after which the counter holds \<^verbatim>\<open>'1'\<close>.  A
  caller scheduled alone computes \<^verbatim>\<open>_get_key\<close>, for every implementation of the primitives.
\<close>

theorem concurrent_first_access:
  assumes fresh: "s (control_key ns) = None"
  shows "(\<forall>j nk. j < length keys \<longrightarrow>
            fst (interleaving ideal ns sched (map Calling keys, s)) ! j = Returned nk \<longrightarrow>
            nk = effective_key ns ''1'' (keys ! j))
    \<and> ((\<forall>j. j < length keys \<longrightarrow> 2 \<le> count_list sched j) \<longrightarrow>
         fst (interleaving ideal ns sched (map Calling keys, s))
           = map (\<lambda>key. Returned (effective_key ns ''1'' key)) keys)
    \<and> creations ideal ns sched (map Calling keys, s) \<le> 1
    \<and> ((\<exists>i\<in>set sched. i < length keys) \<longrightarrow>
         creations ideal ns sched (map Calling keys, s) = 1
         \<and> snd (interleaving ideal ns sched (map Calling keys, s)) (control_key ns)
             = Some (PStr ''1''))
    \<and> interleaving self ns [0, 0] ([Calling key], t)
         = ([Returned (fst (get_key self ns key t))], snd (get_key self ns key t))"
proof -
  let ?fin = "fst (interleaving ideal ns sched (map Calling keys, s))"
  have inv0: "first_access_inv ns keys (map Calling keys, s)"
    using fresh by (simp add: first_access_inv_def caller_ok_def list_all2_conv_all_nth)
  have "first_access_inv ns keys (interleaving ideal ns sched (map Calling keys, s))"
    using inv0 by (rule inv_interleaving)
  then have all: "list_all2 (caller_ok ns) keys ?fin"
    by (simp add: first_access_inv_def)
  then have len: "length ?fin = length keys"
    and ok: "\<And>j. j < length keys \<Longrightarrow> caller_ok ns (keys ! j) (?fin ! j)"
    by (auto simp: list_all2_conv_all_nth)
  have a: "nk = effective_key ns ''1'' (keys ! j)"
    if "j < length keys" "?fin ! j = Returned nk" for j nk
    using ok[OF that(1)] that(2) by (simp add: caller_ok_def)
  have b: "?fin = map (\<lambda>key. Returned (effective_key ns ''1'' key)) keys"
    if twice: "\<forall>j. j < length keys \<longrightarrow> 2 \<le> count_list sched j"
  proof (rule nth_equalityI)
    show "length ?fin = length (map (\<lambda>key. Returned (effective_key ns ''1'' key)) keys)"
      using len by simp
    fix j assume "j < length ?fin"
    then have j: "j < length keys" using len by simp
    then have "j < length (map Calling keys)" by simp
    from progress[OF this, of sched ideal ns s] twice j
    have "rank (?fin ! j) = 2"
      using rank_step[of "?fin ! j" ideal ns s]
      by (cases "?fin ! j") auto
    then obtain nk where "?fin ! j = Returned nk"
      using rank_2 by blast
    then show "?fin ! j = map (\<lambda>key. Returned (effective_key ns ''1'' key)) keys ! j"
      using a[OF j] j by simp
  qed
  note c = first_creates[where s = s and ns = ns and sched = sched and keys = keys, OF fresh]
  have d: "interleaving self ns [0, 0] ([Calling key], t)
         = ([Returned (fst (get_key self ns key t))], snd (get_key self ns key t))"
    by (rule caller_alone_is_get_key)
  show ?thesis
    using a b c d by (simp split: if_splits)
qed

theorem concurrent_first_access_witness:
  "(Map.empty :: cache) (control_key ''ns1'') = None
   \<and> fst (interleaving ideal ''ns1'' [1, 0, 2, 0, 2, 1] (map Calling [''k'', ''k'', ''j''], Map.empty))
       = [Returned ''__ns1_1_k'', Returned ''__ns1_1_k'', Returned ''__ns1_1_j'']
   \<and> creations ideal ''ns1'' [1, 0, 2, 0, 2, 1] (map Calling [''k'', ''k'', ''j''], Map.empty) = 1
   \<and> snd (interleaving ideal ''ns1'' [1, 0, 2, 0, 2, 1] (map Calling [''k'', ''k'', ''j''], Map.empty))
       ''__ns_ns1'' = Some (PStr ''1'')"
proof -
  have h: "(Map.empty :: cache) (control_key ''ns1'') = None" by simp
  note th = concurrent_first_access [where s = Map.empty and ns = "''ns1''"
      and keys = "[''k'', ''k'', ''j'']" and sched = "[1, 0, 2, 0, 2, 1]", OF h]
  have twice: "\<forall>j. j < length [''k'', ''k'', ''j''] \<longrightarrow> 2 \<le> count_list [1, 0, 2, 0, 2, 1] j"
    by (auto simp: less_Suc_eq)
  have some: "\<exists>i\<in>set [1, 0, 2, 0, 2, 1]. i < length [''k'', ''k'', ''j'']"
    by simp
  have keys: "map (\<lambda>key. Returned (effective_key ''ns1'' ''1'' key)) [''k'', ''k'', ''j'']
      = [Returned ''__ns1_1_k'', Returned ''__ns1_1_k'', Returned ''__ns1_1_j'']"
    by (simp add: effective_key_def)
  have ck: "control_key ''ns1'' = ''__ns_ns1''"
    by (simp add: control_key_def)
  note a = th [THEN conjunct2, THEN conjunct1, THEN mp, OF twice]
  note bc = th [THEN conjunct2, THEN conjunct2, THEN conjunct2, THEN conjunct1, THEN mp, OF some]
  note a' = a [unfolded keys]
  note b = bc [THEN conjunct1]
  note c' = bc [THEN conjunct2, unfolded ck]
  show ?thesis
    by (intro conjI h a' b c')
qed

section \<open>The claims that need a restriction\<close>

text \<open>
  C1, as stated, fails: with the counter of \<^verbatim>\<open>a\<close> at \<open>1\<close>, the key \<^verbatim>\<open>1_x\<close> of \<^verbatim>\<open>a\<close> resolves
  after a flush to \<^verbatim>\<open>__a_2_1_x\<close>, which is also the key \<^verbatim>\<open>x\<close> of the namespace \<^verbatim>\<open>a_2\<close> at
  version \<open>1\<close>; the look-up after the flush returns the entry of the other namespace.
\<close>

theorem flush_invalidates_counterexample:
  "stale_cache (control_key ''a'') = Some (PStr ''1'')
   \<and> fst (ns_get ideal ''a'' ''1_x'' (ns_flush ideal ''a''
        (snd (ns_set ideal ''a'' ''1_x'' (PStr ''val'') 0 0 stale_cache)))) = PStr ''stale''
   \<and> PStr ''stale'' \<noteq> PNone"
  by (simp add: stale_cache_def eval_defs)

text \<open>
  C1, amended.  If the control key of \<open>ns\<close> holds a counter of value \<open>n\<close> and no entry is
  stored under the key that \<open>k\<close> resolves to at version \<open>n + 1\<close>, then after \<^verbatim>\<open>ns_set\<close> and
  \<^verbatim>\<open>ns_flush\<close> the look-up \<^verbatim>\<open>ns_get\<close> returns \<^verbatim>\<open>None\<close>: the key resolved after the flush (version
  \<open>n + 1\<close>) differs from the key written by the set, and the entry written by the set is
  still in the cache.
\<close>

theorem flush_invalidates:
  assumes ctl: "s (control_key ns) = Some c" and num: "numeric c = Some n"
    and vacant: "s (effective_key ns (str_nat (n + 1)) k) = None"
  shows "fst (ns_get ideal ns k (ns_flush ideal ns (snd (ns_set ideal ns k val t m s)))) = PNone
    \<and> fst (get_key ideal ns k s) = effective_key ns (py_str c) k
    \<and> fst (get_key ideal ns k (ns_flush ideal ns (snd (ns_set ideal ns k val t m s))))
        = effective_key ns (str_nat (n + 1)) k
    \<and> effective_key ns (str_nat (n + 1)) k \<noteq> effective_key ns (py_str c) k
    \<and> snd (ns_get ideal ns k (ns_flush ideal ns (snd (ns_set ideal ns k val t m s))))
        (effective_key ns (py_str c) k) = Some val"
proof -
  define new_version where "new_version = str_nat (n + 1)"
  let ?old = "effective_key ns (py_str c) k"
  let ?new = "effective_key ns new_version k"
  let ?ck = "control_key ns"
  define s1 where "s1 = snd (ns_set ideal ns k val t m s)"
  define s2 where "s2 = ns_flush ideal ns s1"
  have gk: "get_key ideal ns k s = (?old, s)"
    using ctl by (rule get_key_ideal_present)
  have s1: "s1 = s(?old \<mapsto> val)"
    by (simp add: s1_def ns_set_ideal gk)
  have ck_old: "?ck \<noteq> ?old" and ck_new: "?ck \<noteq> ?new"
    by (rule control_neq_effective_same)+
  have new_old: "?new \<noteq> ?old"
    using str_nat_neq_py_str[OF num, of "n + 1"]
    by (simp add: effective_key_version new_version_def)
  have s1_ck: "s1 ?ck = Some c"
    using ck_old ctl by (simp add: s1)
  then have cnt: "counter s1 ns = Some n"
    using num by (simp add: counter_def)
  have s2: "s2 = s1(?ck \<mapsto> with_count c (n + 1))"
    by (simp add: s2_def ns_flush_ideal cnt s1_ck)
  have "s2 ?ck = Some (with_count c (n + 1))"
    by (simp add: s2)
  then have "get_key ideal ns k s2 = (effective_key ns (py_str (with_count c (n + 1))) k, s2)"
    by (rule get_key_ideal_present)
  then have gk2: "get_key ideal ns k s2 = (?new, s2)"
    by (simp only: py_str_with_count[OF num] new_version_def)
  have "s ?new = None"
    using vacant by (simp only: new_version_def)
  then have s2_new: "s2 ?new = None"
    using ck_new new_old by (simp add: s2 s1)
  have s2_old: "s2 ?old = Some val"
    using ck_old by (simp add: s2 s1)
  have get: "ns_get ideal ns k s2 = (PNone, s2)"
    by (simp add: ns_get_ideal gk2 s2_new)
  have "fst (ns_get ideal ns k s2) = PNone
    \<and> fst (get_key ideal ns k s) = ?old
    \<and> fst (get_key ideal ns k s2) = ?new
    \<and> ?new \<noteq> ?old
    \<and> snd (ns_get ideal ns k s2) ?old = Some val"
    using gk gk2 new_old s2_old get by simp
  then show ?thesis
    unfolding s2_def s1_def new_version_def .
qed

theorem flush_invalidates_witness:
  "[''__ns_ns1'' \<mapsto> PStr ''1''] (control_key ''ns1'') = Some (PStr ''1'')
   \<and> numeric (PStr ''1'') = Some 1
   \<and> [''__ns_ns1'' \<mapsto> PStr ''1''] (effective_key ''ns1'' (str_nat (1 + 1)) ''a'') = None
   \<and> fst (ns_get ideal ''ns1'' ''a'' (ns_flush ideal ''ns1''
        (snd (ns_set ideal ''ns1'' ''a'' (PStr ''1'') 0 0 [''__ns_ns1'' \<mapsto> PStr ''1''])))) = PNone
   \<and> snd (ns_get ideal ''ns1'' ''a'' (ns_flush ideal ''ns1''
        (snd (ns_set ideal ''ns1'' ''a'' (PStr ''1'') 0 0 [''__ns_ns1'' \<mapsto> PStr ''1'']))))
        ''__ns1_1_a'' = Some (PStr ''1'')"
proof -
  have a: "[''__ns_ns1'' \<mapsto> PStr ''1''] (control_key ''ns1'') = Some (PStr ''1'')"
    by (simp add: control_key_def)
  have b: "numeric (PStr ''1'') = Some 1"
    by (simp add: is_digit_def parse_nat_def digit_val_def)
  have c: "[''__ns_ns1'' \<mapsto> PStr ''1''] (effective_key ''ns1'' (str_nat (1 + 1)) ''a'') = None"
    by (simp add: effective_key_def)
  note th = flush_invalidates [OF a b c, where val = "PStr ''1''" and t = 0 and m = 0]
  from th have d: "fst (ns_get ideal ''ns1'' ''a'' (ns_flush ideal ''ns1''
        (snd (ns_set ideal ''ns1'' ''a'' (PStr ''1'') 0 0 [''__ns_ns1'' \<mapsto> PStr ''1'']))))
        = PNone"
    by (rule conjunct1)
  from th have "snd (ns_get ideal ''ns1'' ''a'' (ns_flush ideal ''ns1''
        (snd (ns_set ideal ''ns1'' ''a'' (PStr ''1'') 0 0 [''__ns_ns1'' \<mapsto> PStr ''1'']))))
        (effective_key ''ns1'' (py_str (PStr ''1'')) ''a'') = Some (PStr ''1'')"
    by blast
  then have e: "snd (ns_get ideal ''ns1'' ''a'' (ns_flush ideal ''ns1''
        (snd (ns_set ideal ''ns1'' ''a'' (PStr ''1'') 0 0 [''__ns_ns1'' \<mapsto> PStr ''1'']))))
        ''__ns1_1_a'' = Some (PStr ''1'')"
    by (simp add: effective_key_def)
  show ?thesis using a b c d e by blast
qed

text \<open>
  C3, as stated, fails: the effective key of \<^verbatim>\<open>k\<close> in the namespace \<^verbatim>\<open>ns\<close> at version \<open>1\<close> is
  \<^verbatim>\<open>__ns_1_k\<close>, the control key of the namespace \<^verbatim>\<open>1_k\<close>.  After two flushes of \<^verbatim>\<open>1_k\<close> its
  counter is \<open>2\<close>; \<^verbatim>\<open>ns_decr('ns', 'k')\<close> lowers it to \<open>1\<close> and \<^verbatim>\<open>ns_delete('ns', 'k')\<close> deletes
  it.
\<close>

theorem counter_only_increases_counterexample:
  "counter (run ideal [Ns_flush ''1_k'', Ns_flush ''1_k''] Map.empty) ''1_k'' = Some 2
   \<and> counter (run ideal [Ns_flush ''1_k'', Ns_flush ''1_k'', Ns_decr ''ns'' ''k'' 1] Map.empty)
        ''1_k'' = Some 1
   \<and> run ideal [Ns_flush ''1_k'', Ns_flush ''1_k'', Ns_delete ''ns'' ''k''] Map.empty
        (control_key ''1_k'') = None"
  by (simp add: eval_defs)

text \<open>
  C3, amended.  Take any namespace whose control key holds a counter of value \<open>n\<close>, and any
  sequence of public calls (on any namespaces and keys) in which no \<^verbatim>\<open>ns_set\<close>, no
  \<^verbatim>\<open>ns_decr\<close> by a positive amount and no \<^verbatim>\<open>ns_delete\<close> resolves its key to that control key.  Then the control key afterwards
  holds a counter of value at least \<open>n\<close> plus the number of flushes of the namespace in the
  sequence: no call lowers, resets or deletes it.  Each flush of the namespace that finds the
  counter at \<open>n\<close> leaves it at \<open>n + 1\<close>.  No sequence of calls spoils the control key of a
  namespace whose name has no underscore.
\<close>

theorem counter_only_increases:
  "(counter s ns = Some n \<longrightarrow> \<not> spoiled (control_key ns) cs s \<longrightarrow>
      (\<exists>n'. counter (run ideal cs s) ns = Some n' \<and> n + flushes ns cs \<le> n'))
   \<and> (counter s ns = Some n \<longrightarrow> counter (ns_flush ideal ns s) ns = Some (n + 1))
   \<and> (CHR ''_'' \<notin> set ns \<longrightarrow> \<not> spoiled (control_key ns) cs s)"
proof (intro conjI impI)
  assume "counter s ns = Some n" and "\<not> spoiled (control_key ns) cs s"
  then show "\<exists>n'. counter (run ideal cs s) ns = Some n' \<and> n + flushes ns cs \<le> n'"
    by (rule run_ideal_counter_unspoiled)
next
  assume "counter s ns = Some n"
  then show "counter (ns_flush ideal ns s) ns = Some (n + 1)"
    by (rule ns_flush_ideal_counter)
next
  assume "CHR ''_'' \<notin> set ns"
  then show "\<not> spoiled (control_key ns) cs s"
    by (rule never_spoiled_plain)
qed

theorem counter_only_increases_witness:
  "counter [''__ns_user_data'' \<mapsto> PStr ''1''] ''user_data'' = Some 1
   \<and> \<not> spoiled (control_key ''user_data'')
        [Ns_set ''user_data'' ''a'' (PStr ''1'') 0 0, Ns_flush ''user_data'',
         Ns_decr ''ns'' ''k'' 1, Ns_delete ''ns'' ''k'', Ns_flush ''user_data'']
        [''__ns_user_data'' \<mapsto> PStr ''1'']
   \<and> (\<exists>n'. counter (run ideal
        [Ns_set ''user_data'' ''a'' (PStr ''1'') 0 0, Ns_flush ''user_data'',
         Ns_decr ''ns'' ''k'' 1, Ns_delete ''ns'' ''k'', Ns_flush ''user_data'']
        [''__ns_user_data'' \<mapsto> PStr ''1'']) ''user_data'' = Some n' \<and> 3 \<le> n')
   \<and> counter (ns_flush ideal ''user_data'' [''__ns_user_data'' \<mapsto> PStr ''1'']) ''user_data''
        = Some 2"
proof -
  let ?s = "[''__ns_user_data'' \<mapsto> PStr ''1''] :: cache"
  let ?cs = "[Ns_set ''user_data'' ''a'' (PStr ''1'') 0 0, Ns_flush ''user_data'',
         Ns_decr ''ns'' ''k'' 1, Ns_delete ''ns'' ''k'', Ns_flush ''user_data'']"
  have a: "counter ?s ''user_data'' = Some 1"
    by (simp add: counter_def control_key_def is_digit_def parse_nat_def digit_val_def)
  have b: "\<not> spoiled (control_key ''user_data'') ?cs ?s"
    by (simp add: eval_defs)
  have f: "1 + flushes ''user_data'' ?cs = 3"
    by (simp add: flushes_def)
  note th = counter_only_increases [where s = "?s" and ns = "''user_data''" and n = 1
      and cs = "?cs"]
  note c = th [THEN conjunct1, rule_format, OF a b, unfolded f]
  have d: "counter (ns_flush ideal ''user_data'' ?s) ''user_data'' = Some 2"
    using th [THEN conjunct2, THEN conjunct1, rule_format, OF a] by simp
  show ?thesis
    by (intro conjI a b c d)
qed

text \<open>
  C4, as stated, fails.  With \<^verbatim>\<open>ns1 = "1_k"\<close> and \<^verbatim>\<open>ns2 = "ns"\<close>, \<^verbatim>\<open>ns_set(ns2, "k", v2)\<close>
  writes \<^verbatim>\<open>__ns_1_k\<close>, the control key of \<^verbatim>\<open>ns1\<close>, and the entry of \<^verbatim>\<open>ns1\<close> is no longer found.  And
  two distinct triples of namespace, logical key and version give one effective key.
\<close>

theorem namespace_isolation_counterexample:
  "''1_k'' \<noteq> ''ns''
   \<and> fst (ns_get ideal ''1_k'' ''k''
        (snd (ns_set ideal ''ns'' ''k'' (PStr ''v2'') 0 0
          (snd (ns_set ideal ''1_k'' ''k'' (PStr ''v1'') 0 0 Map.empty))))) = PNone
   \<and> PNone \<noteq> PStr ''v1''
   \<and> (''a'', ''1_x'', ''2'') \<noteq> (''a_2'', ''x'', ''1'')
   \<and> effective_key ''a'' ''2'' ''1_x'' = effective_key ''a_2'' ''1'' ''x''"
  by (simp add: eval_defs)

text \<open>
  C4, amended.  From every cache state, after \<^verbatim>\<open>ns_set(ns1, k, v1)\<close> and
  \<^verbatim>\<open>ns_set(ns2, k, v2)\<close> the look-ups return \<open>v1\<close> and \<open>v2\<close> and leave the cache as it is,
  provided the key that the second \<^verbatim>\<open>ns_set\<close> writes is neither the control key of \<open>ns1\<close>
  nor the key that the first \<^verbatim>\<open>ns_set\<close> wrote (which implies \<open>ns1 \<noteq> ns2\<close>); both hold when
  \<open>ns1 \<noteq> ns2\<close> have no underscore.  Two triples of namespace, version and logical key denote
  the same slot exactly when the strings \<^verbatim>\<open><ns>_<version>_<key>\<close> are equal.  For versions
  without underscore this does not happen within one namespace, nor across namespaces when
  the namespaces, or the logical keys, have no underscore either.
\<close>

theorem namespace_isolation:
  "(fst (get_key ideal ns2 k (snd (ns_set ideal ns1 k v1 t1 m1 s))) \<noteq> control_key ns1 \<longrightarrow>
    fst (get_key ideal ns2 k (snd (ns_set ideal ns1 k v1 t1 m1 s))) \<noteq> fst (get_key ideal ns1 k s) \<longrightarrow>
    s2 = snd (ns_set ideal ns2 k v2 t2 m2 (snd (ns_set ideal ns1 k v1 t1 m1 s))) \<longrightarrow>
      ns_get ideal ns1 k s2 = (v1, s2) \<and> ns_get ideal ns2 k s2 = (v2, s2))
   \<and> (ns1 \<noteq> ns2 \<longrightarrow> CHR ''_'' \<notin> set ns1 \<longrightarrow> CHR ''_'' \<notin> set ns2 \<longrightarrow>
        fst (get_key ideal ns2 k (snd (ns_set ideal ns1 k v1 t1 m1 s))) \<noteq> control_key ns1
        \<and> fst (get_key ideal ns2 k (snd (ns_set ideal ns1 k v1 t1 m1 s)))
            \<noteq> fst (get_key ideal ns1 k s))
   \<and> (effective_key na va ka = effective_key nb vb kb)
        = (na @ ''_'' @ va @ ''_'' @ ka = nb @ ''_'' @ vb @ ''_'' @ kb)
   \<and> (CHR ''_'' \<notin> set va \<longrightarrow> CHR ''_'' \<notin> set vb \<longrightarrow>
        (effective_key na va ka = effective_key na vb kb) = (va = vb \<and> ka = kb))
   \<and> (CHR ''_'' \<notin> set va \<longrightarrow> CHR ''_'' \<notin> set vb \<longrightarrow>
        (CHR ''_'' \<notin> set na \<and> CHR ''_'' \<notin> set nb) \<or> (CHR ''_'' \<notin> set ka \<and> CHR ''_'' \<notin> set kb) \<longrightarrow>
        (effective_key na va ka = effective_key nb vb kb) = (na = nb \<and> va = vb \<and> ka = kb))"
proof -
  define sA where "sA = snd (ns_set ideal ns1 k v1 t1 m1 s)"
  let ?e1 = "fst (get_key ideal ns1 k s)"
  let ?e2 = "fst (get_key ideal ns2 k sA)"
  have iso: "ns_get ideal ns1 k s2 = (v1, s2) \<and> ns_get ideal ns2 k s2 = (v2, s2)"
    if ctl: "?e2 \<noteq> control_key ns1" and ent: "?e2 \<noteq> ?e1"
      and s2: "s2 = snd (ns_set ideal ns2 k v2 t2 m2 sA)"
  proof -
    have second: "ns_get ideal ns2 k s2 = (v2, s2)"
      unfolding s2 by (rule ns_set_ns_get)
    have gA: "get_key ideal ns1 k sA = (?e1, sA)"
      unfolding sA_def by (rule get_key_after_set)
    have presA: "sA (control_key ns1) \<noteq> None"
      unfolding sA_def by (rule ns_set_ideal_control)
    have entA: "sA ?e1 = Some v1"
      by (simp add: sA_def ns_set_ideal)
    have ck: "s2 (control_key ns1) = sA (control_key ns1)"
      using ctl presA by (simp add: s2 ns_frame get_key_ideal_keeps)
    have ek: "s2 ?e1 = sA ?e1"
      using ent entA by (simp add: s2 ns_frame get_key_ideal_keeps)
    have "fst (ns_get ideal ns1 k s2) = fst (ns_get ideal ns1 k sA)"
      using ck ek ns_get_ideal_same[of s2 ns1 sA k] by (simp add: gA)
    then have val: "fst (ns_get ideal ns1 k s2) = v1"
      by (simp add: sA_def ns_set_ns_get)
    have "s2 (control_key ns1) \<noteq> None"
      using ck presA by simp
    then have "snd (ns_get ideal ns1 k s2) = s2"
      by (rule ns_get_ideal_state)
    with val have "ns_get ideal ns1 k s2 = (v1, s2)"
      by (simp add: prod_eq_iff)
    then show ?thesis using second by simp
  qed
  have plain: "?e2 \<noteq> control_key ns1 \<and> ?e2 \<noteq> ?e1"
    if diff: "ns1 \<noteq> ns2" and us1: "CHR ''_'' \<notin> set ns1" and us2: "CHR ''_'' \<notin> set ns2"
  proof -
    obtain v where v: "?e1 = effective_key ns1 v k"
      using get_key_ideal_effective by blast
    obtain w where w: "?e2 = effective_key ns2 w k"
      using get_key_ideal_effective by blast
    have "effective_key ns2 w k \<noteq> control_key ns1"
      using control_neq_effective_plain[OF us1, of ns2 w k] by simp
    moreover have "effective_key ns2 w k \<noteq> effective_key ns1 v k"
      using effective_key_ns[OF us2 us1, of w k v k] diff by blast
    ultimately show ?thesis by (simp add: v w)
  qed
  have inj: "(effective_key na va ka = effective_key nb vb kb) = (na = nb \<and> va = vb \<and> ka = kb)"
    if v: "CHR ''_'' \<notin> set va" "CHR ''_'' \<notin> set vb"
      and d: "(CHR ''_'' \<notin> set na \<and> CHR ''_'' \<notin> set nb) \<or> (CHR ''_'' \<notin> set ka \<and> CHR ''_'' \<notin> set kb)"
    using d
  proof
    assume "CHR ''_'' \<notin> set na \<and> CHR ''_'' \<notin> set nb"
    then show ?thesis using effective_key_inj[OF _ _ v] by blast
  next
    assume "CHR ''_'' \<notin> set ka \<and> CHR ''_'' \<notin> set kb"
    then show ?thesis using effective_key_plain_keys[OF v] by blast
  qed
  show ?thesis
    using iso plain inj effective_key_exact[of na va ka nb vb kb]
      effective_key_same_ns[of va vb na ka kb]
    unfolding sA_def by (intro conjI impI) blast+
qed

theorem namespace_isolation_witness:
  "fst (get_key ideal ''user_b'' ''a'' (snd (ns_set ideal ''user_a'' ''a'' (PStr ''1'') 0 0 Map.empty)))
     \<noteq> control_key ''user_a''
   \<and> fst (get_key ideal ''user_b'' ''a'' (snd (ns_set ideal ''user_a'' ''a'' (PStr ''1'') 0 0 Map.empty)))
     \<noteq> fst (get_key ideal ''user_a'' ''a'' Map.empty)
   \<and> fst (ns_get ideal ''user_a'' ''a''
        (snd (ns_set ideal ''user_b'' ''a'' (PStr ''2'') 0 0
          (snd (ns_set ideal ''user_a'' ''a'' (PStr ''1'') 0 0 Map.empty))))) = PStr ''1''
   \<and> fst (ns_get ideal ''user_b'' ''a''
        (snd (ns_set ideal ''user_b'' ''a'' (PStr ''2'') 0 0
          (snd (ns_set ideal ''user_a'' ''a'' (PStr ''1'') 0 0 Map.empty))))) = PStr ''2''
   \<and> CHR ''_'' \<notin> set ''1'' \<and> CHR ''_'' \<notin> set ''2''
   \<and> effective_key ''user_a'' ''1'' ''a_b'' \<noteq> effective_key ''user_a'' ''2'' ''a_b''"
proof -
  let ?sA = "snd (ns_set ideal ''user_a'' ''a'' (PStr ''1'') 0 0 Map.empty)"
  have a: "fst (get_key ideal ''user_b'' ''a'' ?sA) \<noteq> control_key ''user_a''"
    by (simp add: eval_defs)
  have b: "fst (get_key ideal ''user_b'' ''a'' ?sA) \<noteq> fst (get_key ideal ''user_a'' ''a'' Map.empty)"
    by (simp add: eval_defs)
  have d: "CHR ''_'' \<notin> set ''1''" and e: "CHR ''_'' \<notin> set ''2''"
    by simp_all
  note th = namespace_isolation [where ?ns1.0 = "''user_a''" and ?ns2.0 = "''user_b''"
      and k = "''a''" and ?v1.0 = "PStr ''1''" and ?v2.0 = "PStr ''2''" and ?t1.0 = 0
      and ?m1.0 = 0 and ?t2.0 = 0 and ?m2.0 = 0 and s = Map.empty
      and na = "''user_a''" and va = "''1''" and vb = "''2''" and ka = "''a_b''" and kb = "''a_b''"]
  note iso = th [THEN conjunct1, rule_format, OF a b refl]
  have g: "fst (ns_get ideal ''user_a'' ''a''
        (snd (ns_set ideal ''user_b'' ''a'' (PStr ''2'') 0 0 ?sA))) = PStr ''1''"
    using iso [THEN conjunct1] by simp
  have h: "fst (ns_get ideal ''user_b'' ''a''
        (snd (ns_set ideal ''user_b'' ''a'' (PStr ''2'') 0 0 ?sA))) = PStr ''2''"
    using iso [THEN conjunct2] by simp
  have f: "effective_key ''user_a'' ''1'' ''a_b'' \<noteq> effective_key ''user_a'' ''2'' ''a_b''"
    using th [THEN conjunct2, THEN conjunct2, THEN conjunct2, THEN conjunct1, rule_format, OF d e]
    by simp
  show ?thesis
    by (intro conjI a b g h d e f)
qed

text \<open>
  C7, as stated, fails: \<^verbatim>\<open>ns_set('ns', 'k', '5')\<close> stores its entry under \<^verbatim>\<open>__ns_1_k\<close>, the
  control key of the namespace \<^verbatim>\<open>1_k\<close>; \<^verbatim>\<open>ns_flush('1_k')\<close> increments it, and
  \<^verbatim>\<open>ns_get('ns', 'k')\<close> returns \<^verbatim>\<open>'6'\<close>.
\<close>

theorem flush_other_namespace_counterexample:
  "''ns'' \<noteq> ''1_k''
   \<and> fst (ns_get ideal ''ns'' ''k'' (snd (ns_set ideal ''ns'' ''k'' (PStr ''5'') 0 0 Map.empty)))
        = PStr ''5''
   \<and> fst (ns_get ideal ''ns'' ''k'' (ns_flush ideal ''1_k''
        (snd (ns_set ideal ''ns'' ''k'' (PStr ''5'') 0 0 Map.empty)))) = PStr ''6''
   \<and> PStr ''6'' \<noteq> PStr ''5''"
  by (simp add: eval_defs)

text \<open>
  C7, amended.  For \<open>ns1 \<noteq> ns2\<close>, when the control key of the flushed namespace \<open>ns2\<close> is
  not the key that \<open>k\<close> resolves to in \<open>ns1\<close>, the look-up \<^verbatim>\<open>ns_get(ns1, k)\<close> returns after
  \<^verbatim>\<open>ns_flush(ns2)\<close> what it returned before; in particular a value set by
  \<^verbatim>\<open>ns_set(ns1, k, x)\<close> is still returned.  For every namespace \<open>ns2\<close>, with no condition, the
  flush changes no key other than the control key of \<open>ns2\<close>.  The condition on the keys holds
  whenever \<open>ns2\<close> has no underscore or \<open>ns1\<close> does not start with \<^verbatim>\<open>ns\<close>.
\<close>

theorem flush_other_namespace:
  "(ns1 \<noteq> ns2 \<longrightarrow> control_key ns2 \<noteq> fst (get_key ideal ns1 k s) \<longrightarrow>
      fst (ns_get ideal ns1 k (ns_flush ideal ns2 s)) = fst (ns_get ideal ns1 k s)
      \<and> fst (ns_get ideal ns1 k (ns_flush ideal ns2 (snd (ns_set ideal ns1 k x t m s)))) = x)
   \<and> (key \<noteq> control_key ns2 \<longrightarrow> ns_flush ideal ns2 s key = s key)
   \<and> (CHR ''_'' \<notin> set ns2 \<or> take 2 ns1 \<noteq> ''ns'' \<longrightarrow>
        control_key ns2 \<noteq> fst (get_key ideal ns1 k s))"
proof (intro conjI impI)
  assume diff: "ns1 \<noteq> ns2" and ne: "control_key ns2 \<noteq> fst (get_key ideal ns1 k s)"
  have same: "fst (ns_get ideal ns1 k (ns_flush ideal ns2 u)) = fst (ns_get ideal ns1 k u)"
    if "control_key ns2 \<noteq> fst (get_key ideal ns1 k u)" for u
  proof (rule ns_get_ideal_same[THEN conjunct2])
    show "ns_flush ideal ns2 u (control_key ns1) = u (control_key ns1)"
      using diff by (simp add: ns_flush_ideal_frame control_key_inj)
    show "ns_flush ideal ns2 u (fst (get_key ideal ns1 k u)) = u (fst (get_key ideal ns1 k u))"
      using that by (simp add: ns_flush_ideal_frame)
  qed
  show "fst (ns_get ideal ns1 k (ns_flush ideal ns2 s)) = fst (ns_get ideal ns1 k s)"
    using ne by (rule same)
  have "control_key ns2 \<noteq> fst (get_key ideal ns1 k (snd (ns_set ideal ns1 k x t m s)))"
    using ne by (simp add: get_key_after_set)
  then show "fst (ns_get ideal ns1 k (ns_flush ideal ns2 (snd (ns_set ideal ns1 k x t m s)))) = x"
    by (simp add: same ns_set_ns_get)
next
  assume "key \<noteq> control_key ns2"
  then show "ns_flush ideal ns2 s key = s key"
    by (rule ns_flush_ideal_frame)
next
  assume "CHR ''_'' \<notin> set ns2 \<or> take 2 ns1 \<noteq> ''ns''"
  then show "control_key ns2 \<noteq> fst (get_key ideal ns1 k s)"
    by (rule control_neq_resolved_plain)
qed

theorem flush_other_namespace_witness:
  "''users'' \<noteq> ''session_data''
   \<and> control_key ''session_data'' \<noteq> fst (get_key ideal ''users'' ''a'' Map.empty)
   \<and> fst (ns_get ideal ''users'' ''a'' (ns_flush ideal ''session_data''
        (snd (ns_set ideal ''users'' ''a'' (PStr ''x'') 0 0 Map.empty)))) = PStr ''x''
   \<and> ''__ns_users'' \<noteq> control_key ''session_data''
   \<and> ns_flush ideal ''session_data'' [''__ns_users'' \<mapsto> PStr ''1''] ''__ns_users''
        = Some (PStr ''1'')"
proof -
  have a: "''users'' \<noteq> ''session_data''" by simp
  have b: "control_key ''session_data'' \<noteq> fst (get_key ideal ''users'' ''a'' Map.empty)"
    by (simp add: eval_defs)
  have c: "''__ns_users'' \<noteq> control_key ''session_data''"
    by (simp add: control_key_def)
  note th = flush_other_namespace [where ?ns1.0 = "''users''" and ?ns2.0 = "''session_data''"
      and k = "''a''" and x = "PStr ''x''" and t = 0 and m = 0 and s = Map.empty]
  note d = th [THEN conjunct1, rule_format, OF a b, THEN conjunct2]
  note th2 = flush_other_namespace [where ?ns2.0 = "''session_data''"
      and key = "''__ns_users''" and s = "[''__ns_users'' \<mapsto> PStr ''1'']"]
  have e: "ns_flush ideal ''session_data'' [''__ns_users'' \<mapsto> PStr ''1''] ''__ns_users''
        = Some (PStr ''1'')"
    using th2 [THEN conjunct2, THEN conjunct1, rule_format, OF c] by simp
  show ?thesis
    by (intro conjI a b c d e)
qed

end
